theory Spec2Isabelle
  imports Complex_Main "HOL-Library.Multiset"
begin

section \<open>Data model of the drawing application (src/src/app.ts)\<close>

text \<open>
  JavaScript numbers are double-precision floats. In the viewport, in hit testing and in
  selection the statements are about comparisons and about values that are assigned as
  they are; there numbers are modelled as reals. The placement of an image computes
  quotients and products whose rounding matters; there each arithmetic operation is
  followed by rounding to the nearest double (\<open>double\<close> below). Non-finite values
  (NaN, Infinity) are outside the model.
\<close>

text \<open>The interface \<open>PlacedImage\<close>: one placed image on the canvas.\<close>

record PlacedImage =
  img_id :: string
  img_url :: string
  img_x :: real
  img_y :: real
  img_width :: real
  img_height :: real
  img_selected :: bool

text \<open>
  The part of the Konva stage that the application reads and writes: its position
  (\<open>stage.x()\<close>, \<open>stage.y()\<close>, \<open>stage.position()\<close>) and its size
  (\<open>stage.width()\<close>, \<open>stage.height()\<close>).
\<close>

record Stage =
  stage_x :: real
  stage_y :: real
  stage_width :: real
  stage_height :: real

text \<open>
  The fields of class \<open>DrawingApp\<close> that the modelled methods touch. The width and
  height of the canvas element are unsigned integers: an assignment drops the fraction
  of a non-negative number. The field
  \<open>stage\<close> is undefined until \<open>initializeKonva\<close> has run, hence an option. The image
  cache maps a url to the decoded image, of which only \<open>naturalWidth\<close> and
  \<open>naturalHeight\<close> are read.
\<close>

record DrawingApp =
  canvas_width :: nat
  canvas_height :: nat
  stage :: "Stage option"
  virtualCanvasWidth :: real
  virtualCanvasHeight :: real
  placedImages :: "PlacedImage list"
  selectedImageId :: "string option"
  dragOffsetX :: real
  dragOffsetY :: real
  selectedImageIndex :: int
  currentTool :: string
  imageCache :: "string \<rightharpoonup> nat \<times> nat"

section \<open>Viewport: canvas size, centring and drag boundaries\<close>

text \<open>
  \<open>limitDragBoundaries\<close> reads the stage position once (\<open>const pos = stage.position()\<close>
  is a copy) and then runs four independent \<open>if\<close> statements on that copy, each
  overwriting one coordinate of the stage. Without a stage the first method call
  throws, which is the result \<open>None\<close>.
\<close>

definition limitDragBoundaries :: "DrawingApp \<Rightarrow> DrawingApp option" where
  "limitDragBoundaries s =
     (case stage s of
        None \<Rightarrow> None
      | Some st \<Rightarrow>
          (let pos_x = stage_x st;
               pos_y = stage_y st;
               stageWidth = stage_width st;
               stageHeight = stage_height st;
               maxX = 0;
               maxY = 0;
               minX = - (virtualCanvasWidth s - stageWidth);
               minY = - (virtualCanvasHeight s - stageHeight);
               st1 = (if pos_x > maxX then st\<lparr>stage_x := maxX\<rparr> else st);
               st2 = (if pos_y > maxY then st1\<lparr>stage_y := maxY\<rparr> else st1);
               st3 = (if pos_x < minX then st2\<lparr>stage_x := minX\<rparr> else st2);
               st4 = (if pos_y < minY then st3\<lparr>stage_y := minY\<rparr> else st3)
           in Some (s\<lparr>stage := Some st4\<rparr>)))"

text \<open>
  A pan step. In navigation mode the stage is draggable: Konva moves the stage by the
  pointer delta and then fires \<open>dragmove\<close>, whose only handler (registered in
  \<open>initializeKonva\<close>) is \<open>limitDragBoundaries\<close>.
\<close>

definition pan :: "real \<Rightarrow> real \<Rightarrow> DrawingApp \<Rightarrow> DrawingApp option" where
  "pan dx dy s =
     (case stage s of
        None \<Rightarrow> None
      | Some st \<Rightarrow>
          limitDragBoundaries
            (s\<lparr>stage := Some (st\<lparr>stage_x := stage_x st + dx, stage_y := stage_y st + dy\<rparr>)\<rparr>))"

text \<open>
  The closure \<open>updateCanvasSize\<close> of \<open>initializeCanvas\<close>, called once at the end of
  \<open>initializeCanvas\<close> and then on every window resize. Its argument is the bounding
  rectangle (width, height) of the element \<open>canvas-container\<close>, or \<open>None\<close> when the
  element is missing. \<open>!stage.x() && !stage.y()\<close> holds when both coordinates are 0.
\<close>

definition updateCanvasSize :: "(real \<times> real) option \<Rightarrow> DrawingApp \<Rightarrow> DrawingApp" where
  "updateCanvasSize container s =
     (case container of
        None \<Rightarrow> s
      | Some (rect_width, rect_height) \<Rightarrow>
          (let s1 = s\<lparr>canvas_width := nat \<lfloor>rect_width\<rfloor>,
                       canvas_height := nat \<lfloor>rect_height\<rfloor>\<rparr>
           in case stage s1 of
                None \<Rightarrow> s1
              | Some st \<Rightarrow>
                  (let st1 = st\<lparr>stage_width := rect_width, stage_height := rect_height\<rparr>;
                       st2 = (if stage_x st1 = 0 \<and> stage_y st1 = 0
                              then (let offsetX = (virtualCanvasWidth s1 - rect_width) / 2;
                                        offsetY = (virtualCanvasHeight s1 - rect_height) / 2
                                    in st1\<lparr>stage_x := - offsetX, stage_y := - offsetY\<rparr>)
                              else st1)
                   in s1\<lparr>stage := Some st2\<rparr>)))"

definition initializeCanvas :: "(real \<times> real) option \<Rightarrow> DrawingApp \<Rightarrow> DrawingApp" where
  "initializeCanvas container s = updateCanvasSize container s"

text \<open>
  \<open>initializeKonva\<close> creates the stage with the canvas's current size and no position,
  which in Konva is the origin; without the container element it returns early.
\<close>

definition initializeKonva :: "(real \<times> real) option \<Rightarrow> DrawingApp \<Rightarrow> DrawingApp" where
  "initializeKonva container s =
     (let width = real (canvas_width s); height = real (canvas_height s)
      in case container of
           None \<Rightarrow> s
         | Some _ \<Rightarrow>
             s\<lparr>stage := Some \<lparr>stage_x = 0, stage_y = 0,
                                stage_width = width, stage_height = height\<rparr>\<rparr>)"

text \<open>
  The field initialisers of \<open>DrawingApp\<close> and the start of its constructor:
  \<open>initializeCanvas()\<close> runs first, \<open>initializeKonva()\<close> second. The canvas element
  has the default size of a canvas, 300 by 150, until \<open>updateCanvasSize\<close> sets it.
\<close>

definition initialApp :: DrawingApp where
  "initialApp =
     \<lparr>canvas_width = 300, canvas_height = 150, stage = None,
      virtualCanvasWidth = 3000, virtualCanvasHeight = 3000,
      placedImages = [], selectedImageId = None,
      dragOffsetX = 0, dragOffsetY = 0, selectedImageIndex = - 1,
      currentTool = ''pencil'', imageCache = Map.empty\<rparr>"

definition startup :: "(real \<times> real) option \<Rightarrow> DrawingApp" where
  "startup container = initializeKonva container (initializeCanvas container initialApp)"

section \<open>Rounding to double precision\<close>

text \<open>
  Every arithmetic operation of the language rounds its exact result to the nearest
  double, ties to even. The exponent range is taken as unbounded: the numbers that
  occur in the placement are far from the limits of the range, where overflow and
  gradual underflow would differ. \<open>exponent x\<close> is the binary exponent of a positive
  \<open>x\<close>, that is the \<open>e\<close> with \<open>2 powi e \<le> x < 2 powi (e + 1)\<close>.
\<close>

function exponent :: "real \<Rightarrow> int" where
  "exponent x =
     (if x \<le> 0 then 0
      else if x < 1 then exponent (2 * x) - 1
      else if 2 \<le> x then exponent (x / 2) + 1
      else 0)"
  by pat_completeness auto

termination
proof (relation "measure (\<lambda>x. if x \<le> 0 then 0 else nat \<bar>\<lfloor>log 2 x\<rfloor>\<bar>)")
  show "wf (measure (\<lambda>x::real. if x \<le> 0 then 0 else nat \<bar>\<lfloor>log 2 x\<rfloor>\<bar>))"
    by simp
next
  fix x :: real
  assume a: "\<not> x \<le> 0" "x < 1"
  then have "log 2 (2 * x) = 1 + log 2 x"
    by (simp add: log_mult)
  then have f: "\<lfloor>log 2 (2 * x)\<rfloor> = \<lfloor>log 2 x\<rfloor> + 1"
    by simp
  have "log 2 x < 0" using a by simp
  then have "\<lfloor>log 2 x\<rfloor> < 0" by linarith
  with f have "nat \<bar>\<lfloor>log 2 (2 * x)\<rfloor>\<bar> < nat \<bar>\<lfloor>log 2 x\<rfloor>\<bar>" by linarith
  with a show "(2 * x, x) \<in> measure (\<lambda>x. if x \<le> 0 then 0 else nat \<bar>\<lfloor>log 2 x\<rfloor>\<bar>)"
    by simp
next
  fix x :: real
  assume a: "\<not> x \<le> 0" "\<not> x < 1" "2 \<le> x"
  then have "log 2 (x / 2) = log 2 x - 1"
    by (simp add: log_divide)
  then have f: "\<lfloor>log 2 (x / 2)\<rfloor> = \<lfloor>log 2 x\<rfloor> - 1"
    by simp
  have "1 \<le> log 2 x" using a by (simp add: le_log_iff)
  then have "1 \<le> \<lfloor>log 2 x\<rfloor>" by linarith
  with f have "nat \<bar>\<lfloor>log 2 (x / 2)\<rfloor>\<bar> < nat \<bar>\<lfloor>log 2 x\<rfloor>\<bar>" by linarith
  with a show "(x / 2, x) \<in> measure (\<lambda>x. if x \<le> 0 then 0 else nat \<bar>\<lfloor>log 2 x\<rfloor>\<bar>)"
    by simp
qed

declare exponent.simps [simp del]

text \<open>The nearest integer, a tie going to the even one.\<close>

definition round_even :: "real \<Rightarrow> int" where
  "round_even y =
     (let n = \<lfloor>y\<rfloor>; f = y - of_int n
      in if f < 1 / 2 then n
         else if 1 / 2 < f then n + 1
         else if even n then n else n + 1)"

text \<open>
  Rounding to the nearest number with 53 significant bits: the quotient by the spacing
  \<open>2 powi (e - 52)\<close> of the binade of \<open>x\<close> is rounded to an integer.
\<close>

definition double :: "real \<Rightarrow> real" where
  "double x =
     (if x = 0 then 0
      else (let e = exponent \<bar>x\<bar>; q = 2 powi (e - 52)
            in of_int (round_even (x / q)) * q))"

text \<open>The unit roundoff of double precision, the bound of the relative rounding error.\<close>

definition unit_roundoff :: real where
  "unit_roundoff = 1 / 2 ^ 53"

section \<open>Placed images: placement, hit testing, selection, deletion\<close>

text \<open>
  Decimal rendering of a non-negative integer, as a template literal renders it.
\<close>

definition digit :: "nat \<Rightarrow> char" where
  "digit d = ''0123456789'' ! d"

fun decimal :: "nat \<Rightarrow> string" where
  "decimal n = (if n < 10 then [digit n] else decimal (n div 10) @ [digit (n mod 10)])"

declare decimal.simps [simp del]

text \<open>
  The second half of the closure \<open>placeImage\<close> of \<open>placeImageOnCanvas\<close>: from the
  size of the box it computes the position that centres the box, generates the id from
  the reading \<open>now\<close> of \<open>Date.now()\<close> and the draw \<open>rnd\<close> of \<open>Math.random()\<close>, and
  pushes the new image. Drawing on the 2D context changes no field of the model.
\<close>

definition pushPlacedImage ::
  "DrawingApp \<Rightarrow> string \<Rightarrow> real \<times> real \<Rightarrow> real \<Rightarrow> real \<Rightarrow> nat \<Rightarrow> real \<Rightarrow> DrawingApp" where
  "pushPlacedImage s imageUrl position width height now rnd =
     (let x = double (fst position - double (width / 2));
          y = double (snd position - double (height / 2));
          newId = ''img_'' @ decimal now @ ''_'' @ decimal (nat \<lfloor>double (rnd * 1000)\<rfloor>);
          placedImage = \<lparr>img_id = newId, img_url = imageUrl, img_x = x, img_y = y,
                           img_width = width, img_height = height,
                           img_selected = False\<rparr>
      in s\<lparr>placedImages := placedImages s @ [placedImage]\<rparr>)"

text \<open>
  The closure \<open>placeImage\<close>. Its inputs beside the state are the url, the position,
  the decoded image's \<open>naturalWidth\<close> and \<open>naturalHeight\<close> (non-negative integers),
  \<open>now\<close> and \<open>rnd\<close>. The state is the one at the time the closure runs, which for an
  image that is still to be loaded is the time of its \<open>onload\<close> event.

  A zero dimension makes the aspect ratio a non-finite number, and the code has no test
  for it. With \<open>naturalHeight = 0\<close> alone the ratio is Infinity, \<open>maxSize / Infinity\<close>
  is 0 and the box is 300 by 0. With \<open>naturalWidth = 0\<close> alone the ratio is 0,
  \<open>maxSize / 0\<close> is Infinity, which exceeds \<open>maxSize\<close>, and the box is 0 by 300.
  With both 0 the ratio is NaN and so are the height and \<open>y\<close> of the pushed image;
  the model has no such image, and the result is \<open>None\<close> in this one case.
\<close>

definition placeImage ::
  "DrawingApp \<Rightarrow> string \<Rightarrow> real \<times> real \<Rightarrow> nat \<times> nat \<Rightarrow> nat \<Rightarrow> real \<Rightarrow> DrawingApp option" where
  "placeImage s imageUrl position img now rnd =
     (let naturalWidth = fst img; naturalHeight = snd img; maxSize = 300
      in if naturalWidth = 0 \<and> naturalHeight = 0 then None
         else if naturalHeight = 0
         then Some (pushPlacedImage s imageUrl position maxSize 0 now rnd)
         else if naturalWidth = 0
         then Some (pushPlacedImage s imageUrl position 0 maxSize now rnd)
         else
           (let aspectRatio = double (real naturalWidth / real naturalHeight);
                width0 = maxSize;
                height0 = double (maxSize / aspectRatio);
                height = (if height0 > maxSize then maxSize else height0);
                width = (if height0 > maxSize then double (maxSize * aspectRatio) else width0)
            in Some (pushPlacedImage s imageUrl position width height now rnd)))"

text \<open>
  \<open>placeImageOnCanvas\<close>: a cached image is placed at once; otherwise the url is loaded,
  and \<open>loaded\<close> is the outcome: \<open>None\<close> for \<open>onerror\<close> (an alert, nothing placed),
  the decoded image for \<open>onload\<close> (cached, then placed).
\<close>

definition placeImageOnCanvas ::
  "DrawingApp \<Rightarrow> string \<Rightarrow> real \<times> real \<Rightarrow> (nat \<times> nat) option \<Rightarrow> nat \<Rightarrow> real
     \<Rightarrow> DrawingApp option" where
  "placeImageOnCanvas s imageUrl position loaded now rnd =
     (case imageCache s imageUrl of
        Some img \<Rightarrow> placeImage s imageUrl position img now rnd
      | None \<Rightarrow>
          (case loaded of
             None \<Rightarrow> Some s
           | Some img \<Rightarrow>
               placeImage (s\<lparr>imageCache := (imageCache s)(imageUrl \<mapsto> img)\<rparr>)
                 imageUrl position img now rnd))"

text \<open>The callback \<open>image => { image.selected = false }\<close>.\<close>

definition deselect :: "PlacedImage \<Rightarrow> PlacedImage" where
  "deselect im = im\<lparr>img_selected := False\<rparr>"

text \<open>
  The body of the \<open>if\<close> in the loop of \<open>selectImageAt\<close>, for the image at index \<open>i\<close>:
  all flags are cleared, the flag of \<open>img\<close> is set, and the array is rebuilt from the
  images whose id differs from that of \<open>img\<close>, followed by \<open>img\<close>.
\<close>

definition selectHit :: "DrawingApp \<Rightarrow> nat \<Rightarrow> real \<Rightarrow> real \<Rightarrow> DrawingApp" where
  "selectHit s i x y =
     (let deselected = map deselect (placedImages s);
          img = (deselected ! i)\<lparr>img_selected := True\<rparr>
      in s\<lparr>placedImages := filter (\<lambda>im. img_id im \<noteq> img_id img) deselected @ [img],
            selectedImageId := Some (img_id img),
            dragOffsetX := x - img_x img,
            dragOffsetY := y - img_y img,
            selectedImageIndex := - 1,
            currentTool := ''select''\<rparr>)"

text \<open>
  The loop \<open>for (let i = length - 1; i >= 0; i--)\<close> of \<open>selectImageAt\<close>; the counter
  \<open>n\<close> is \<open>i + 1\<close>. The result is the returned boolean and the state.
\<close>

fun selectLoop :: "DrawingApp \<Rightarrow> real \<Rightarrow> real \<Rightarrow> nat \<Rightarrow> bool \<times> DrawingApp" where
  "selectLoop s x y 0 = (False, s)"
| "selectLoop s x y (Suc i) =
     (let img = placedImages s ! i
      in if x \<ge> img_x img \<and> x \<le> img_x img + img_width img \<and>
            y \<ge> img_y img \<and> y \<le> img_y img + img_height img
         then (True, selectHit s i x y)
         else selectLoop s x y i)"

definition selectImageAt :: "DrawingApp \<Rightarrow> real \<Rightarrow> real \<Rightarrow> bool \<times> DrawingApp" where
  "selectImageAt s x y = selectLoop s x y (length (placedImages s))"

definition deselectAllImages :: "DrawingApp \<Rightarrow> DrawingApp" where
  "deselectAllImages s =
     s\<lparr>placedImages := map deselect (placedImages s), selectedImageId := None\<rparr>"

text \<open>
  \<open>deleteSelectedImage\<close>: the guard \<open>if (this.selectedImageId)\<close> is false for \<open>null\<close>
  and for the empty string.
\<close>

definition deleteSelectedImage :: "DrawingApp \<Rightarrow> DrawingApp" where
  "deleteSelectedImage s =
     (case selectedImageId s of
        None \<Rightarrow> s
      | Some sid \<Rightarrow>
          if sid = [] then s
          else s\<lparr>placedImages := filter (\<lambda>img. img_id img \<noteq> sid) (placedImages s),
                  selectedImageId := None\<rparr>)"

text \<open>
  The box test of the specification: inclusive bounds on both axes.
\<close>

definition inside :: "PlacedImage \<Rightarrow> real \<Rightarrow> real \<Rightarrow> bool" where
  "inside img x y =
     (img_x img \<le> x \<and> x \<le> img_x img + img_width img \<and>
      img_y img \<le> y \<and> y \<le> img_y img + img_height img)"

text \<open>At most one placed image carries the flag \<open>selected\<close>.\<close>

definition at_most_one_selected :: "PlacedImage list \<Rightarrow> bool" where
  "at_most_one_selected imgs = (length (filter img_selected imgs) \<le> 1)"

text \<open>The viewport invariant of the specification, on a stage and a virtual size.\<close>

definition viewport_inv :: "DrawingApp \<Rightarrow> bool" where
  "viewport_inv s =
     (case stage s of
        None \<Rightarrow> False
      | Some st \<Rightarrow>
          0 \<le> - stage_x st \<and> - stage_x st \<le> virtualCanvasWidth s - stage_width st \<and>
          0 \<le> - stage_y st \<and> - stage_y st \<le> virtualCanvasHeight s - stage_height st)"

text \<open>Hard clipping of a requested coordinate to the interval from \<open>lo\<close> to 0.\<close>

definition clip :: "real \<Rightarrow> real \<Rightarrow> real" where
  "clip lo v = (if v > 0 then 0 else if v < lo then lo else v)"

text \<open>
  Example states for an 800 by 600 container: the application after its first resize
  event, and the same after a pan by (-2500, 0).
\<close>

definition centred_app :: DrawingApp where
  "centred_app = updateCanvasSize (Some (800, 600)) (startup (Some (800, 600)))"

definition panned_app :: DrawingApp where
  "panned_app = the (pan (- 2500) 0 centred_app)"

text \<open>
  The selection invariant of the placed images: ids are non-empty, an image that
  carries the flag \<open>selected\<close> has the id \<open>selectedImageId\<close>, and
  \<open>selectedImageId\<close>, when set, is the id of a placed image that carries the flag.
\<close>

definition selection_inv :: "DrawingApp \<Rightarrow> bool" where
  "selection_inv s =
     ((\<forall>img \<in> set (placedImages s).
          img_id img \<noteq> [] \<and>
          (img_selected img \<longrightarrow> selectedImageId s = Some (img_id img))) \<and>
      (case selectedImageId s of
         None \<Rightarrow> True
       | Some sid \<Rightarrow> \<exists>img \<in> set (placedImages s). img_id img = sid \<and> img_selected img))"

text \<open>
  Example states: two fully overlapping 100 by 100 images, A placed before B, none
  selected; the same two above a third image C that lies apart; and one placed image,
  selected by a click on its centre.
\<close>

definition imgA :: PlacedImage where
  "imgA = \<lparr>img_id = ''img_1_1'', img_url = ''a.png'', img_x = 0, img_y = 0,
            img_width = 100, img_height = 100, img_selected = False\<rparr>"

definition imgB :: PlacedImage where
  "imgB = \<lparr>img_id = ''img_2_2'', img_url = ''b.png'', img_x = 0, img_y = 0,
            img_width = 100, img_height = 100, img_selected = False\<rparr>"

definition two_images :: DrawingApp where
  "two_images = initialApp\<lparr>placedImages := [imgA, imgB]\<rparr>"







section \<open>The proxy route POST /proxy/generate (src/proxy-server.js)\<close>

text \<open>JSON values, as far as the route's responses use them; an object keeps its keys in order.\<close>

datatype json = JString string | JNumber nat | JBool bool | JObject "(string \<times> json) list"

text \<open>
  The request: the header \<open>x-api-key\<close> if present, and the body as busboy sees it.
  Either the form is read to its end, with its fields in the order of the \<open>field\<close>
  events; or busboy throws when it is created, for headers it does not accept; or the
  body breaks off before the form is complete (or is malformed), and busboy emits an
  \<open>error\<close> event instead of \<open>finish\<close>.
\<close>

datatype form_body = Multipart "(string \<times> string) list" | Unparsable string | Truncated

record request =
  api_key :: "string option"
  form :: form_body

text \<open>
  What \<open>fetch\<close> to the upstream API gives: a rejection with a message, or a response
  with status (a three-digit HTTP status code), content type and body. Reading the body
  either fails with a message (\<open>Inl\<close>) or yields its content (\<open>Inr\<close>).
\<close>

record upstream_response =
  up_status :: nat
  up_content_type :: "string option"
  up_body :: "string + string"

datatype fetch_result = Rejected string | Resolved upstream_response

text \<open>The response that reaches the client: the status and the JSON body, if one is sent.\<close>

record response =
  res_status :: nat
  res_body :: "(string \<times> json) list option"

text \<open>
  \<open>res.status(code).json(obj)\<close>: express sends no body with the statuses 204 and 304.
\<close>

definition send_json :: "nat \<Rightarrow> (string \<times> json) list \<Rightarrow> response" where
  "send_json code obj =
     \<lparr>res_status = code, res_body = (if code = 204 \<or> code = 304 then None else Some obj)\<rparr>"

text \<open>\<open>response.ok\<close> of node-fetch: the status is in the range 200 to 299.\<close>

definition ok :: "upstream_response \<Rightarrow> bool" where
  "ok r = (200 \<le> up_status r \<and> up_status r < 300)"

text \<open>\<open>String.prototype.includes\<close>: the pattern occurs somewhere in the string.\<close>

fun str_includes :: "string \<Rightarrow> string \<Rightarrow> bool" where
  "str_includes [] p = (p = [])"
| "str_includes (c # cs) p = (take (length p) (c # cs) = p \<or> str_includes cs p)"

text \<open>
  The \<open>field\<close> handler run over the form: \<open>prompt\<close> starts as the empty string and
  every field named \<open>prompt\<close> overwrites it.
\<close>

definition prompt_of :: "(string \<times> string) list \<Rightarrow> string" where
  "prompt_of flds = foldl (\<lambda>prompt (name, val). if name = ''prompt'' then val else prompt) [] flds"

text \<open>
  The route handler; the result is the response, or \<open>None\<close> when no response is sent.
  \<open>encode\<close> stands for \<open>Buffer.toString('base64')\<close>. A falsy API key (absent header
  or empty value) gives 401 before busboy is created. An exception of busboy's creation
  reaches the outer \<open>catch\<close>. The route registers listeners for \<open>field\<close> and
  \<open>finish\<close> only: the \<open>error\<close> event of a body that breaks off has no listener and
  is raised outside both \<open>try\<close> blocks, so no response is sent and the process ends.
  Every exception in the \<open>finish\<close> handler reaches the inner \<open>catch\<close>, except a
  failed read of an error body, which keeps the default message.
\<close>

definition proxy_generate ::
  "(string \<Rightarrow> string) \<Rightarrow> request \<Rightarrow> fetch_result \<Rightarrow> response option" where
  "proxy_generate encode req upstream =
     (if api_key req = None \<or> api_key req = Some []
      then Some (send_json 401 [(''error'', JString ''API key is required'')])
      else case form req of
        Unparsable msg \<Rightarrow>
          Some (send_json 500 [(''error'', JString ''Internal server error''),
                               (''details'', JString msg)])
      | Truncated \<Rightarrow> None
      | Multipart flds \<Rightarrow>
          (let prompt = prompt_of flds
           in if prompt = []
              then Some (send_json 400 [(''error'', JString ''Prompt is required'')])
              else case upstream of
                Rejected msg \<Rightarrow>
                  Some (send_json 500 [(''error'', JString ''Failed to process request''),
                                       (''details'', JString msg)])
              | Resolved r \<Rightarrow>
                  if \<not> ok r
                  then (let errorMsg = (case up_body r of
                                          Inl _ \<Rightarrow> ''Failed to generate image''
                                        | Inr errorText \<Rightarrow> errorText)
                        in Some (send_json (up_status r)
                                   [(''error'', JString ''Error from Clipdrop API''),
                                    (''details'', JString errorMsg),
                                    (''status'', JNumber (up_status r))]))
                  else if (case up_content_type r of
                             None \<Rightarrow> False
                           | Some contentType \<Rightarrow> str_includes contentType ''image'')
                  then (case up_body r of
                          Inl msg \<Rightarrow>
                            Some (send_json 500
                                    [(''error'', JString ''Failed to process request''),
                                     (''details'', JString msg)])
                        | Inr imageBuffer \<Rightarrow>
                            Some (send_json 200
                                    [(''success'', JBool True),
                                     (''image'', JString (encode imageBuffer))]))
                  else (case up_body r of
                          Inl msg \<Rightarrow>
                            Some (send_json 500
                                    [(''error'', JString ''Failed to process request''),
                                     (''details'', JString msg)])
                        | Inr bodyText \<Rightarrow>
                            Some (send_json 502
                                    [(''error'',
                                      JString ''Unexpected response type from Clipdrop API''),
                                     (''details'', JString bodyText)]))))"

section \<open>Rounding lemmas\<close>

lemma exponent_bounds:
  "0 < x \<Longrightarrow> 2 powi exponent x \<le> x \<and> x < 2 powi (exponent x + 1)"
proof (induction x rule: exponent.induct)
  case (1 x)
  show ?case
  proof (cases "x < 1")
    case True
    with "1.prems" have e: "exponent x = exponent (2 * x) - 1"
      by (subst exponent.simps) simp
    have ih: "2 powi exponent (2 * x) \<le> 2 * x \<and> 2 * x < 2 powi (exponent (2 * x) + 1)"
      using "1.IH"(1) "1.prems" True by simp
    have "(2::real) powi (exponent (2 * x) - 1) = 2 powi exponent (2 * x) / 2"
      by (simp add: power_int_diff)
    moreover have "(2::real) powi (exponent (2 * x) + 1) = 2 powi exponent (2 * x) * 2"
      by (simp add: power_int_add)
    ultimately show ?thesis using ih by (simp add: e)
  next
    case False
    show ?thesis
    proof (cases "2 \<le> x")
      case True
      with False "1.prems" have e: "exponent x = exponent (x / 2) + 1"
        by (subst exponent.simps) simp
      have ih: "2 powi exponent (x / 2) \<le> x / 2 \<and> x / 2 < 2 powi (exponent (x / 2) + 1)"
        using "1.IH"(2) "1.prems" False True by simp
      have "(2::real) powi (exponent (x / 2) + 1 + 1) = 2 powi (exponent (x / 2) + 1) * 2"
        by (simp add: power_int_add)
      moreover have "(2::real) powi (exponent (x / 2) + 1) = 2 powi exponent (x / 2) * 2"
        by (simp add: power_int_add)
      ultimately show ?thesis using ih by (simp add: e)
    next
      case b: False
      with False "1.prems" have e: "exponent x = 0"
        by (subst exponent.simps) simp
      with False b show ?thesis by simp
    qed
  qed
qed

lemma exponent_unique:
  assumes "0 < x" "2 powi e \<le> x" "x < 2 powi (e + 1)"
  shows "exponent x = e"
proof -
  from exponent_bounds [OF assms(1)]
  have b: "2 powi exponent x \<le> x" "x < 2 powi (exponent x + 1)" by simp_all
  have "(2::real) powi e < 2 powi (exponent x + 1)" using assms(2) b(2) by linarith
  then have "e < exponent x + 1"
    by (metis power_int_increasing linorder_not_less one_le_numeral)
  moreover have "(2::real) powi exponent x < 2 powi (e + 1)" using assms(3) b(1) by linarith
  then have "exponent x < e + 1"
    by (metis power_int_increasing linorder_not_less one_le_numeral)
  ultimately show ?thesis by simp
qed

lemma exponent_mono:
  assumes "0 < x" "x \<le> y"
  shows "exponent x \<le> exponent y"
proof -
  have "0 < y" using assms by simp
  from exponent_bounds [OF assms(1)] exponent_bounds [OF this] assms(2)
  have "(2::real) powi exponent x < 2 powi (exponent y + 1)" by linarith
  then have "exponent x < exponent y + 1"
    by (metis power_int_increasing linorder_not_less one_le_numeral)
  then show ?thesis by simp
qed

lemma round_even_cases:
  "round_even y = \<lfloor>y\<rfloor> \<and> y - of_int \<lfloor>y\<rfloor> \<le> 1 / 2 \<or>
   round_even y = \<lfloor>y\<rfloor> + 1 \<and> 1 / 2 \<le> y - of_int \<lfloor>y\<rfloor>"
  by (auto simp: round_even_def Let_def)

lemma round_even_error: "\<bar>of_int (round_even y) - y\<bar> \<le> 1 / 2"
  using round_even_cases [of y] by (auto simp: abs_le_iff)

lemma round_even_of_int [simp]: "round_even (of_int m) = m"
  by (simp add: round_even_def)

lemma round_even_mono:
  assumes "y \<le> z"
  shows "round_even y \<le> round_even z"
proof (cases "\<lfloor>y\<rfloor> = \<lfloor>z\<rfloor>")
  case True
  then have "y - of_int \<lfloor>y\<rfloor> \<le> z - of_int \<lfloor>z\<rfloor>" using assms by simp
  with True show ?thesis by (auto simp: round_even_def Let_def)
next
  case False
  have "\<lfloor>y\<rfloor> \<le> \<lfloor>z\<rfloor>" using assms by (rule floor_mono)
  with False have "\<lfloor>y\<rfloor> + 1 \<le> \<lfloor>z\<rfloor>" by simp
  moreover have "round_even y \<le> \<lfloor>y\<rfloor> + 1" using round_even_cases [of y] by auto
  moreover have "\<lfloor>z\<rfloor> \<le> round_even z" using round_even_cases [of z] by auto
  ultimately show ?thesis by linarith
qed


lemma double_error: "\<bar>double x - x\<bar> \<le> unit_roundoff * \<bar>x\<bar>"
proof (cases "x = 0")
  case True
  then show ?thesis by (simp add: double_def)
next
  case False
  define e where "e = exponent \<bar>x\<bar>"
  define q :: real where "q = 2 powi (e - 52)"
  have q: "0 < q" by (simp add: q_def)
  have lo: "2 powi e \<le> \<bar>x\<bar>"
    using exponent_bounds [of "\<bar>x\<bar>"] False by (simp add: e_def)
  have d: "double x = of_int (round_even (x / q)) * q"
    using False by (simp add: double_def Let_def e_def q_def)
  have "double x - x = (of_int (round_even (x / q)) - x / q) * q"
    using q by (simp add: d field_simps)
  then have "\<bar>double x - x\<bar> = \<bar>of_int (round_even (x / q)) - x / q\<bar> * q"
    using q by (simp add: abs_mult)
  also have "\<dots> \<le> 1 / 2 * q"
    using round_even_error [of "x / q"] q by (intro mult_right_mono) simp_all
  also have "1 / 2 * q = unit_roundoff * 2 powi e"
    by (simp add: q_def unit_roundoff_def power_int_diff)
  also have "\<dots> \<le> unit_roundoff * \<bar>x\<bar>"
    using lo by (intro mult_left_mono) (simp_all add: unit_roundoff_def)
  finally show ?thesis .
qed

lemma double_range:
  assumes "0 < x"
  shows "2 powi exponent x \<le> double x \<and> double x \<le> 2 powi (exponent x + 1)"
proof -
  define e where "e = exponent x"
  define q :: real where "q = 2 powi (e - 52)"
  have q: "0 < q" by (simp add: q_def)
  have b: "2 powi e \<le> x" "x < 2 powi (e + 1)"
    using exponent_bounds [OF assms] by (simp_all add: e_def)
  have d: "double x = of_int (round_even (x / q)) * q"
    using assms by (simp add: double_def Let_def e_def q_def)
  have p: "(2::real) powi e = 2 ^ 52 * q" "(2::real) powi (e + 1) = 2 ^ 53 * q"
    by (simp_all add: q_def power_int_diff power_int_add)
  have "(2::real) ^ 52 \<le> x / q" "x / q \<le> 2 ^ 53"
    using b q by (simp_all add: p pos_le_divide_eq pos_divide_le_eq)
  then have "round_even (of_int (2 ^ 52)) \<le> round_even (x / q)"
    "round_even (x / q) \<le> round_even (of_int (2 ^ 53))"
    by (simp_all add: round_even_mono)
  then have "(2::int) ^ 52 \<le> round_even (x / q)" "round_even (x / q) \<le> (2::int) ^ 53"
    by (simp_all only: round_even_of_int)
  then have "(2::real) ^ 52 \<le> of_int (round_even (x / q))"
    "of_int (round_even (x / q)) \<le> (2::real) ^ 53"
    by (metis of_int_le_iff of_int_numeral of_int_power)+
  then have "2 ^ 52 * q \<le> double x" "double x \<le> 2 ^ 53 * q"
    using q by (simp_all add: d)
  then show ?thesis unfolding e_def [symmetric] p by blast
qed

lemma double_pos: "0 < x \<Longrightarrow> 0 < double x"
  using double_range [of x] zero_less_power_int [of "2::real" "exponent x"] by linarith

lemma double_mono_pos:
  assumes "0 < x" "x \<le> y"
  shows "double x \<le> double y"
proof (cases "exponent x = exponent y")
  case True
  define q :: real where "q = 2 powi (exponent x - 52)"
  have q: "0 < q" by (simp add: q_def)
  have "double x = of_int (round_even (x / q)) * q" "double y = of_int (round_even (y / q)) * q"
    using assms True by (simp_all add: double_def Let_def q_def)
  moreover have "round_even (x / q) \<le> round_even (y / q)"
    using assms(2) q by (intro round_even_mono) (simp add: divide_right_mono)
  ultimately show ?thesis using q by simp
next
  case False
  have y: "0 < y" using assms by simp
  from False exponent_mono [OF assms] have "exponent x + 1 \<le> exponent y" by simp
  then have "(2::real) powi (exponent x + 1) \<le> 2 powi exponent y"
    by (intro power_int_increasing) simp_all
  with double_range [OF assms(1)] double_range [OF y] show ?thesis by linarith
qed

lemma double_of_int:
  assumes "\<bar>n\<bar> < 2 ^ 53"
  shows "double (of_int n) = of_int n"
proof (cases "n = 0")
  case True
  then show ?thesis by (simp add: double_def)
next
  case False
  define x :: real where "x = of_int n"
  define e where "e = exponent \<bar>x\<bar>"
  have x: "0 < \<bar>x\<bar>" using False by (simp add: x_def)
  have "\<bar>x\<bar> < 2 ^ 53"
    using assms unfolding x_def by (metis of_int_abs of_int_less_iff of_int_numeral of_int_power)
  moreover have "2 powi e \<le> \<bar>x\<bar>" using exponent_bounds [OF x] by (simp add: e_def)
  ultimately have "(2::real) powi e < 2 powi 53" by simp
  then have "e < 53"
    by (metis power_int_increasing linorder_not_less one_le_numeral)
  define k where "k = nat (52 - e)"
  have k: "52 - e = int k" using \<open>e < 53\<close> by (simp add: k_def)
  have q: "(2::real) powi (e - 52) = 1 / 2 ^ k"
  proof -
    have m: "e - 52 = - int k" using k by simp
    show ?thesis unfolding m by (simp add: power_int_minus field_simps)
  qed
  have xne: "x \<noteq> 0" using False by (simp add: x_def)
  have d: "double x = of_int (round_even (x / 2 powi (e - 52))) * 2 powi (e - 52)"
    using xne by (simp add: double_def Let_def e_def)
  have "x / (1 / 2 ^ k) = of_int (n * 2 ^ k)"
    by (simp add: x_def)
  then have r: "round_even (x / (1 / 2 ^ k)) = n * 2 ^ k"
    by (simp only: round_even_of_int)
  have "double x = of_int (n * 2 ^ k) * (1 / 2 ^ k)"
    unfolding d q r ..
  then show ?thesis by (simp add: x_def)
qed

lemma double_numeral [simp]:
  "(numeral k :: int) < 2 ^ 53 \<Longrightarrow> double (numeral k) = numeral k"
  using double_of_int [of "numeral k"] by simp

lemma double_1 [simp]: "double 1 = 1"
  using double_of_int [of 1] by simp

lemma double_eval:
  assumes "0 < x" "2 powi e \<le> x" "x < 2 powi (e + 1)"
  shows "double x = of_int (round_even (x / 2 powi (e - 52))) * 2 powi (e - 52)"
  using assms(1) exponent_unique [OF assms] by (simp add: double_def Let_def)

section \<open>Viewport theorems\<close>

text \<open>
  C3. When the virtual canvas is at least as large as the viewport, a pan by any delta
  from any starting offset, followed by \<open>limitDragBoundaries\<close>, succeeds and leaves an
  offset with \<open>0 \<le> -x \<le> virtualWidth - viewportWidth\<close> and the same for y. The
  clamping is a hard clip: a request above 0 becomes exactly 0, a request below the
  lower bound becomes exactly the lower bound, and a request in range is kept. Sizes
  are unchanged.
\<close>

theorem pan_clamps_to_bounds:
  assumes "stage s = Some st"
    and "stage_width st \<le> virtualCanvasWidth s"
    and "stage_height st \<le> virtualCanvasHeight s"
  shows "\<exists>s' st'. pan dx dy s = Some s' \<and> stage s' = Some st' \<and>
           0 \<le> - stage_x st' \<and> - stage_x st' \<le> virtualCanvasWidth s' - stage_width st' \<and>
           0 \<le> - stage_y st' \<and> - stage_y st' \<le> virtualCanvasHeight s' - stage_height st' \<and>
           stage_x st' = clip (- (virtualCanvasWidth s - stage_width st)) (stage_x st + dx) \<and>
           stage_y st' = clip (- (virtualCanvasHeight s - stage_height st)) (stage_y st + dy) \<and>
           stage_width st' = stage_width st \<and> stage_height st' = stage_height st \<and>
           virtualCanvasWidth s' = virtualCanvasWidth s \<and>
           virtualCanvasHeight s' = virtualCanvasHeight s"
  using assms
  by (auto simp: pan_def limitDragBoundaries_def clip_def Let_def)

theorem pan_clamps_to_bounds_witness:
  "\<exists>s' st'. pan (- 2500) 0 (updateCanvasSize (Some (800, 600)) (startup (Some (800, 600)))) = Some s'
      \<and> stage s' = Some st' \<and> stage_x st' = - 2200 \<and> stage_y st' = - 1200
      \<and> 0 \<le> - stage_x st' \<and> - stage_x st' \<le> virtualCanvasWidth s' - stage_width st'"
proof -
  let ?s = "updateCanvasSize (Some (800, 600)) (startup (Some (800, 600)))"
  let ?st = "\<lparr>stage_x = - 1100, stage_y = - 1200, stage_width = 800, stage_height = 600\<rparr>"
  have a: "stage ?s = Some ?st"
    by (simp add: updateCanvasSize_def startup_def initializeKonva_def
        initializeCanvas_def initialApp_def)
  have d: "virtualCanvasWidth ?s = 3000" "virtualCanvasHeight ?s = 3000"
    by (simp_all add: updateCanvasSize_def startup_def initializeKonva_def
        initializeCanvas_def initialApp_def)
  have b: "stage_width ?st \<le> virtualCanvasWidth ?s"
    and c: "stage_height ?st \<le> virtualCanvasHeight ?s"
    by (simp_all add: d)
  show ?thesis
    using pan_clamps_to_bounds [OF a b c, of "- 2500" 0]
    by (auto simp: clip_def d)
qed

section \<open>Startup and resize\<close>

lemma startup_eq:
  "startup (Some (800, 600)) =
     initialApp\<lparr>canvas_width := 800, canvas_height := 600,
       stage := Some \<lparr>stage_x = 0, stage_y = 0, stage_width = 800, stage_height = 600\<rparr>\<rparr>"
  by (simp add: startup_def initializeCanvas_def initializeKonva_def updateCanvasSize_def
      initialApp_def)

lemma centred_app_eq:
  "centred_app =
     initialApp\<lparr>canvas_width := 800, canvas_height := 600,
       stage := Some \<lparr>stage_x = - 1100, stage_y = - 1200, stage_width = 800, stage_height = 600\<rparr>\<rparr>"
  by (simp add: centred_app_def startup_eq updateCanvasSize_def initialApp_def)

lemma panned_app_eq:
  "panned_app =
     initialApp\<lparr>canvas_width := 800, canvas_height := 600,
       stage := Some \<lparr>stage_x = - 2200, stage_y = - 1200, stage_width = 800, stage_height = 600\<rparr>\<rparr>"
  by (simp add: panned_app_def centred_app_eq pan_def limitDragBoundaries_def initialApp_def)

text \<open>
  C5, evaluated on the code. The constructor calls \<open>initializeCanvas\<close> before
  \<open>initializeKonva\<close>, so the first run of \<open>updateCanvasSize\<close> finds no stage and the
  centring branch is skipped: after startup with an 800 by 600 container the offset is
  (0, 0), not (-1100, -1200), and a pan by (-2500, 0) from there clamps to (-2200, 0).
  The centred offset (-1100, -1200) is set only by the first resize event, and from it
  the pan clamps to (-2200, -1200).
\<close>

theorem startup_offset_not_centred:
  "stage (startup (Some (800, 600)))
     = Some \<lparr>stage_x = 0, stage_y = 0, stage_width = 800, stage_height = 600\<rparr> \<and>
   virtualCanvasWidth (startup (Some (800, 600))) = 3000 \<and>
   virtualCanvasHeight (startup (Some (800, 600))) = 3000 \<and>
   stage (the (pan (- 2500) 0 (startup (Some (800, 600)))))
     = Some \<lparr>stage_x = - 2200, stage_y = 0, stage_width = 800, stage_height = 600\<rparr> \<and>
   stage (updateCanvasSize (Some (800, 600)) (startup (Some (800, 600))))
     = Some \<lparr>stage_x = - 1100, stage_y = - 1200, stage_width = 800, stage_height = 600\<rparr> \<and>
   stage (the (pan (- 2500) 0 (updateCanvasSize (Some (800, 600)) (startup (Some (800, 600))))))
     = Some \<lparr>stage_x = - 2200, stage_y = - 1200, stage_width = 800, stage_height = 600\<rparr>"
  by (simp add: startup_eq updateCanvasSize_def pan_def limitDragBoundaries_def initialApp_def)

text \<open>
  C6, as the code has it. The resize handler sets the canvas and stage size to the
  container's size and leaves the virtual size unchanged. It does not clamp: an offset
  other than (0, 0) is kept as it is, and the offset (0, 0) is replaced by the centred
  offset \<open>(-(virtualWidth - w) / 2, -(virtualHeight - h) / 2)\<close>.
\<close>

theorem updateCanvasSize_keeps_offset:
  assumes "stage s = Some st"
  shows "\<exists>st'. stage (updateCanvasSize (Some (w, h)) s) = Some st' \<and>
           stage_width st' = w \<and> stage_height st' = h \<and>
           canvas_width (updateCanvasSize (Some (w, h)) s) = nat \<lfloor>w\<rfloor> \<and>
           canvas_height (updateCanvasSize (Some (w, h)) s) = nat \<lfloor>h\<rfloor> \<and>
           virtualCanvasWidth (updateCanvasSize (Some (w, h)) s) = virtualCanvasWidth s \<and>
           virtualCanvasHeight (updateCanvasSize (Some (w, h)) s) = virtualCanvasHeight s \<and>
           (stage_x st \<noteq> 0 \<or> stage_y st \<noteq> 0 \<longrightarrow>
              stage_x st' = stage_x st \<and> stage_y st' = stage_y st) \<and>
           (stage_x st = 0 \<and> stage_y st = 0 \<longrightarrow>
              stage_x st' = - ((virtualCanvasWidth s - w) / 2) \<and>
              stage_y st' = - ((virtualCanvasHeight s - h) / 2))"
  using assms by (auto simp: updateCanvasSize_def Let_def)

text \<open>
  After the pan to (-2200, -1200) in an 800 by 600 viewport the invariant holds; a
  resize to 1000 by 600 keeps the offset, and \<open>2200 \<le> 3000 - 1000\<close> fails. And at
  the offset (0, 0), which satisfies the invariant, a resize event moves the offset to
  (-1100, -1200).
\<close>

theorem updateCanvasSize_counterexample:
  "viewport_inv panned_app \<and>
   stage (updateCanvasSize (Some (1000, 600)) panned_app)
     = Some \<lparr>stage_x = - 2200, stage_y = - 1200, stage_width = 1000, stage_height = 600\<rparr> \<and>
   \<not> viewport_inv (updateCanvasSize (Some (1000, 600)) panned_app) \<and>
   stage (startup (Some (800, 600)))
     = Some \<lparr>stage_x = 0, stage_y = 0, stage_width = 800, stage_height = 600\<rparr> \<and>
   viewport_inv (startup (Some (800, 600))) \<and>
   stage (updateCanvasSize (Some (800, 600)) (startup (Some (800, 600))))
     = Some \<lparr>stage_x = - 1100, stage_y = - 1200, stage_width = 800, stage_height = 600\<rparr>"
  by (simp add: panned_app_eq startup_eq updateCanvasSize_def viewport_inv_def initialApp_def)

theorem updateCanvasSize_keeps_offset_witness:
  "stage panned_app
     = Some \<lparr>stage_x = - 2200, stage_y = - 1200, stage_width = 800, stage_height = 600\<rparr> \<and>
   stage (startup (Some (800, 600)))
     = Some \<lparr>stage_x = 0, stage_y = 0, stage_width = 800, stage_height = 600\<rparr> \<and>
   map_option stage_x (stage (updateCanvasSize (Some (1000, 600)) panned_app)) = Some (- 2200) \<and>
   map_option stage_width (stage (updateCanvasSize (Some (1000, 600)) panned_app)) = Some 1000 \<and>
   map_option stage_x (stage (updateCanvasSize (Some (1000, 600)) (startup (Some (800, 600)))))
     = Some (- 1000)"
proof -
  let ?p = "\<lparr>stage_x = - 2200, stage_y = - 1200, stage_width = 800, stage_height = 600\<rparr>"
  let ?o = "\<lparr>stage_x = 0, stage_y = 0, stage_width = 800, stage_height = 600\<rparr>"
  have a: "stage panned_app = Some ?p"
    by (simp add: panned_app_eq)
  have b: "stage (startup (Some (800, 600))) = Some ?o"
    by (simp add: startup_eq)
  have v: "virtualCanvasWidth (startup (Some (800, 600))) = 3000"
    by (simp add: startup_eq initialApp_def)
  from updateCanvasSize_keeps_offset [OF a, of 1000 600]
  have c: "map_option stage_x (stage (updateCanvasSize (Some (1000, 600)) panned_app)) = Some (- 2200)"
    and d: "map_option stage_width (stage (updateCanvasSize (Some (1000, 600)) panned_app)) = Some 1000"
    by auto
  from updateCanvasSize_keeps_offset [OF b, of 1000 600]
  have e: "map_option stage_x (stage (updateCanvasSize (Some (1000, 600)) (startup (Some (800, 600)))))
     = Some (- 1000)"
    by (auto simp: v)
  from a b c d e show ?thesis by blast
qed

section \<open>Lemmas on the selection loop\<close>

lemma selectLoop_Suc:
  "selectLoop s x y (Suc i) =
     (if inside (placedImages s ! i) x y then (True, selectHit s i x y)
      else selectLoop s x y i)"
  by (simp add: inside_def Let_def)



lemma selectLoop_True:
  "selectLoop s x y n = (True, s') \<Longrightarrow>
   \<exists>i<n. inside (placedImages s ! i) x y \<and> s' = selectHit s i x y"
proof (induction n)
  case 0
  then show ?case by simp
next
  case (Suc n)
  show ?case
  proof (cases "inside (placedImages s ! n) x y")
    case True
    with Suc.prems have "s' = selectHit s n x y"
      by (simp add: selectLoop_Suc del: selectLoop.simps(2))
    with True show ?thesis by (intro exI [of _ n]) auto
  next
    case False
    with Suc.prems have "selectLoop s x y n = (True, s')"
      by (simp add: selectLoop_Suc del: selectLoop.simps(2))
    from Suc.IH [OF this] obtain i where i: "i < n" "inside (placedImages s ! i) x y"
      "s' = selectHit s i x y"
      by blast
    then show ?thesis by (intro exI [of _ i]) auto
  qed
qed

lemma selectLoop_False:
  "selectLoop s x y n = (False, s') \<Longrightarrow> s' = s"
  by (induction n) (simp_all add: selectLoop_Suc del: selectLoop.simps(2) split: if_splits)

lemma placedImages_selectHit:
  assumes "i < length (placedImages s)"
  shows "placedImages (selectHit s i x y) =
           filter (\<lambda>im. img_id im \<noteq> img_id (placedImages s ! i)) (map deselect (placedImages s))
           @ [(placedImages s ! i)\<lparr>img_selected := True\<rparr>]"
  using assms by (simp add: selectHit_def Let_def deselect_def)

lemma selectedImageId_selectHit:
  assumes "i < length (placedImages s)"
  shows "selectedImageId (selectHit s i x y) = Some (img_id (placedImages s ! i))"
  using assms by (simp add: selectHit_def Let_def deselect_def)


lemma at_most_one_selected_filter:
  "at_most_one_selected imgs \<Longrightarrow> at_most_one_selected (filter P imgs)"
proof -
  have "length (filter img_selected (filter P imgs)) \<le> length (filter img_selected imgs)"
    by (induction imgs) auto
  then show "at_most_one_selected imgs \<Longrightarrow> at_most_one_selected (filter P imgs)"
    by (simp add: at_most_one_selected_def)
qed

lemma no_selected_deselect: "filter img_selected (map deselect imgs) = []"
  by (induction imgs) (simp_all add: deselect_def)

lemma no_selected_filter_deselect:
  "filter img_selected (filter P (map deselect imgs)) = []"
  by (induction imgs) (simp_all add: deselect_def)

lemma at_most_one_selected_selectHit:
  "i < length (placedImages s) \<Longrightarrow> at_most_one_selected (placedImages (selectHit s i x y))"
  unfolding at_most_one_selected_def
  by (simp only: placedImages_selectHit filter_append no_selected_filter_deselect) simp

section \<open>Hit testing and selection\<close>







section \<open>Selection is unique\<close>

lemma pushPlacedImage_appends:
  "\<exists>p. placedImages (pushPlacedImage s url pos w h now rnd) = placedImages s @ [p] \<and>
       \<not> img_selected p \<and> img_id p \<noteq> [] \<and>
       selectedImageId (pushPlacedImage s url pos w h now rnd) = selectedImageId s"
  by (simp add: pushPlacedImage_def Let_def)

lemma placeImage_appends:
  "placeImage s url pos img now rnd = Some s' \<Longrightarrow>
   \<exists>p. placedImages s' = placedImages s @ [p] \<and> \<not> img_selected p \<and>
       img_id p \<noteq> [] \<and> selectedImageId s' = selectedImageId s"
proof -
  assume "placeImage s url pos img now rnd = Some s'"
  then obtain w h where "s' = pushPlacedImage s url pos w h now rnd"
    by (auto simp: placeImage_def Let_def split: if_splits)
  then show ?thesis
    by (simp only: pushPlacedImage_appends)
qed

lemma placeImageOnCanvas_appends:
  "placeImageOnCanvas s url pos loaded now rnd = Some s' \<Longrightarrow>
   placedImages s' = placedImages s \<or>
   (\<exists>p. placedImages s' = placedImages s @ [p] \<and> \<not> img_selected p)"
  by (auto simp: placeImageOnCanvas_def split: option.splits dest!: placeImage_appends)

lemma at_most_one_selected_place:
  assumes "at_most_one_selected (placedImages s)"
    and "placeImageOnCanvas s url pos loaded now rnd = Some s'"
  shows "at_most_one_selected (placedImages s')"
  using placeImageOnCanvas_appends [OF assms(2)] assms(1)
  by (auto simp: at_most_one_selected_def)

lemma at_most_one_selected_select:
  "at_most_one_selected (placedImages s) \<Longrightarrow>
   at_most_one_selected (placedImages (snd (selectImageAt s x y)))"
proof (cases "fst (selectImageAt s x y)")
  case True
  then have "selectLoop s x y (length (placedImages s)) = (True, snd (selectImageAt s x y))"
    by (cases "selectLoop s x y (length (placedImages s))") (simp add: selectImageAt_def)
  from selectLoop_True [OF this] obtain i where "i < length (placedImages s)"
    "snd (selectImageAt s x y) = selectHit s i x y" by blast
  then show ?thesis by (simp add: at_most_one_selected_selectHit)
next
  case False
  then have "selectLoop s x y (length (placedImages s)) = (False, snd (selectImageAt s x y))"
    by (cases "selectLoop s x y (length (placedImages s))") (simp add: selectImageAt_def)
  from selectLoop_False [OF this] show "at_most_one_selected (placedImages s) \<Longrightarrow> ?thesis"
    by simp
qed

lemma at_most_one_selected_deselectAll:
  "at_most_one_selected (placedImages (deselectAllImages s))"
  by (simp add: deselectAllImages_def at_most_one_selected_def no_selected_deselect)

lemma at_most_one_selected_delete:
  "at_most_one_selected (placedImages s) \<Longrightarrow>
   at_most_one_selected (placedImages (deleteSelectedImage s))"
  by (auto simp: deleteSelectedImage_def at_most_one_selected_filter split: option.splits)

lemma selectHit_last_only:
  assumes "i < length (placedImages s)"
  shows "placedImages (selectHit s i x y) \<noteq> [] \<and>
         last (placedImages (selectHit s i x y)) = (placedImages s ! i)\<lparr>img_selected := True\<rparr> \<and>
         (\<forall>j < length (placedImages (selectHit s i x y)) - 1.
             \<not> img_selected (placedImages (selectHit s i x y) ! j))"
proof -
  let ?front = "filter (\<lambda>im. img_id im \<noteq> img_id (placedImages s ! i)) (map deselect (placedImages s))"
  have eq: "placedImages (selectHit s i x y) = ?front @ [(placedImages s ! i)\<lparr>img_selected := True\<rparr>]"
    by (rule placedImages_selectHit [OF assms])
  have "\<forall>im \<in> set ?front. \<not> img_selected im"
    by (auto simp: deselect_def)
  then have "\<forall>j < length ?front. \<not> img_selected (?front ! j)"
    using nth_mem by blast
  then show ?thesis
    unfolding eq by (simp add: nth_append)
qed

text \<open>
  C2. After a successful selection the hit image is the last element of the order,
  it carries the flag \<open>selected\<close>, \<open>selectedImageId\<close> is its id, and no other element
  carries the flag. Moreover each operation on the placed images (placing, selecting,
  \<open>deselectAllImages\<close>, \<open>deleteSelectedImage\<close>) preserves that at most one placed
  image is selected.
\<close>

theorem selection_is_last_and_unique:
  "(selectImageAt s x y = (True, s') \<longrightarrow>
      placedImages s' \<noteq> [] \<and>
      img_selected (last (placedImages s')) \<and>
      selectedImageId s' = Some (img_id (last (placedImages s'))) \<and>
      (\<forall>j < length (placedImages s') - 1. \<not> img_selected (placedImages s' ! j)) \<and>
      (\<exists>i < length (placedImages s). inside (placedImages s ! i) x y \<and>
          last (placedImages s') = (placedImages s ! i)\<lparr>img_selected := True\<rparr>)) \<and>
   (at_most_one_selected (placedImages s) \<longrightarrow>
      (\<forall>s''. placeImageOnCanvas s url pos loaded now rnd = Some s'' \<longrightarrow>
          at_most_one_selected (placedImages s'')) \<and>
      at_most_one_selected (placedImages (snd (selectImageAt s x y))) \<and>
      at_most_one_selected (placedImages (deselectAllImages s)) \<and>
      at_most_one_selected (placedImages (deleteSelectedImage s)))"
proof (intro conjI impI)
  assume hit: "selectImageAt s x y = (True, s')"
  then obtain i where i: "i < length (placedImages s)" "inside (placedImages s ! i) x y"
    "s' = selectHit s i x y"
    unfolding selectImageAt_def using selectLoop_True by blast
  note l = selectHit_last_only [OF i(1), of x y]
  show "placedImages s' \<noteq> []" using l i(3) by simp
  show "img_selected (last (placedImages s'))" using l i(3) by simp
  show "selectedImageId s' = Some (img_id (last (placedImages s')))"
    using l i(3) selectedImageId_selectHit [OF i(1), of x y] by simp
  show "\<forall>j < length (placedImages s') - 1. \<not> img_selected (placedImages s' ! j)"
    using l i(3) by simp
  show "\<exists>i < length (placedImages s). inside (placedImages s ! i) x y \<and>
          last (placedImages s') = (placedImages s ! i)\<lparr>img_selected := True\<rparr>"
    using l i by blast
next
  assume a: "at_most_one_selected (placedImages s)"
  show "\<forall>s''. placeImageOnCanvas s url pos loaded now rnd = Some s'' \<longrightarrow>
          at_most_one_selected (placedImages s'')"
    using at_most_one_selected_place [OF a] by blast
  show "at_most_one_selected (placedImages (snd (selectImageAt s x y)))"
    by (rule at_most_one_selected_select [OF a])
  show "at_most_one_selected (placedImages (deselectAllImages s))"
    by (rule at_most_one_selected_deselectAll)
  show "at_most_one_selected (placedImages (deleteSelectedImage s))"
    by (rule at_most_one_selected_delete [OF a])
qed


theorem selection_is_last_and_unique_witness:
  "selectImageAt two_images 50 50 = (True, snd (selectImageAt two_images 50 50)) \<and>
   at_most_one_selected (placedImages two_images) \<and>
   placeImageOnCanvas two_images ''x.png'' (500, 500) (Some (1600, 800)) 5 (1 / 2)
     = Some (the (placeImageOnCanvas two_images ''x.png'' (500, 500) (Some (1600, 800)) 5 (1 / 2))) \<and>
   0 < length (placedImages (snd (selectImageAt two_images 50 50))) - 1 \<and>
   img_selected (last (placedImages (snd (selectImageAt two_images 50 50)))) \<and>
   \<not> img_selected (placedImages (snd (selectImageAt two_images 50 50)) ! 0) \<and>
   at_most_one_selected (placedImages
     (the (placeImageOnCanvas two_images ''x.png'' (500, 500) (Some (1600, 800)) 5 (1 / 2)))) \<and>
   at_most_one_selected (placedImages (deleteSelectedImage two_images))"
proof -
  let ?s' = "snd (selectImageAt two_images 50 50)"
  let ?p = "placeImageOnCanvas two_images ''x.png'' (500, 500) (Some (1600, 800)) 5 (1 / 2)"
  have h1: "selectImageAt two_images 50 50 = (True, ?s')"
    by (simp add: selectImageAt_def two_images_def imgA_def imgB_def)
  have h2: "at_most_one_selected (placedImages two_images)"
    by (simp add: at_most_one_selected_def two_images_def imgA_def imgB_def)
  have h3: "?p = Some (the ?p)"
    by (simp add: placeImageOnCanvas_def placeImage_def two_images_def initialApp_def)
  have h4: "0 < length (placedImages ?s') - 1"
    by (simp add: selectImageAt_def two_images_def imgA_def imgB_def selectHit_def
        deselect_def Let_def)
  note t = selection_is_last_and_unique [of two_images 50 50 ?s' "''x.png''" "(500, 500)"
      "Some (1600, 800)" 5 "1 / 2"]
  from t h1 have a: "img_selected (last (placedImages ?s'))" by blast
  from t h1 h4 have b: "\<not> img_selected (placedImages ?s' ! 0)" by blast
  from t h2 h3 have c: "at_most_one_selected (placedImages (the ?p))" by blast
  from t h2 have d: "at_most_one_selected (placedImages (deleteSelectedImage two_images))" by blast
  from h1 h2 h3 h4 a b c d show ?thesis by blast
qed






section \<open>Placement\<close>

lemma unit_roundoff_pos: "0 < unit_roundoff" and unit_roundoff_le: "unit_roundoff \<le> 1 / 3"
  by (simp_all add: unit_roundoff_def)

lemma double_300 [simp]: "double 300 = 300"
  by simp

lemma double_nonneg: "0 \<le> x \<Longrightarrow> 0 \<le> double x"
  using double_pos [of x] by (cases "x = 0") (simp_all add: double_def less_eq_real_def)

lemma double_le_300:
  assumes "0 \<le> x" "x \<le> 300"
  shows "double x \<le> 300"
proof (cases "x = 0")
  case True
  then show ?thesis by (simp add: double_def)
next
  case False
  with assms(1) have "0 < x" by simp
  from double_mono_pos [OF this assms(2)] show ?thesis by (simp only: double_300)
qed

lemma double_ge_1: "1 \<le> x \<Longrightarrow> 1 \<le> double x"
  using double_mono_pos [of 1 x] by simp

text \<open>The box that the closure computes from positive natural dimensions.\<close>

lemma placeImage_positive:
  assumes "0 < nw" and "0 < nh"
  defines "a \<equiv> double (real nw / real nh)"
  defines "w \<equiv> (if double (300 / a) > 300 then double (300 * a) else 300)"
    and "h \<equiv> (if double (300 / a) > 300 then 300 else double (300 / a))"
  shows "placeImage s url pos (nw, nh) now rnd = Some (pushPlacedImage s url pos w h now rnd)"
  using assms(1,2) by (simp add: placeImage_def Let_def a_def w_def h_def)

lemma box_shape:
  assumes "0 < nw" and "0 < nh"
  defines "r \<equiv> real nw / real nh"
  defines "a \<equiv> double r"
  defines "w \<equiv> (if double (300 / a) > 300 then double (300 * a) else 300)"
    and "h \<equiv> (if double (300 / a) > 300 then 300 else double (300 / a))"
  shows "max w h = 300 \<and> 0 < w \<and> 0 < h \<and> (nh \<le> nw \<longrightarrow> w = 300) \<and>
         \<bar>w / h - r\<bar> \<le> 3 * unit_roundoff * r"
proof -
  let ?u = unit_roundoff
  have r: "0 < r" using assms(1,2) by (simp add: r_def)
  have a: "0 < a" unfolding a_def using r by (rule double_pos)
  have ea: "\<bar>a - r\<bar> \<le> ?u * r"
    using double_error [of r] r by (simp add: a_def)
  have al: "(1 - ?u) * r \<le> a" and au: "a \<le> (1 + ?u) * r"
    using ea by (simp_all add: abs_le_iff algebra_simps)
  have t: "0 < 300 / a" using a by simp
  show ?thesis
  proof (cases "double (300 / a) > 300")
    case True
    then have wh: "w = double (300 * a)" "h = 300" by (simp_all add: w_def h_def)
    have "\<not> 300 / a \<le> 300"
      using True double_le_300 [of "300 / a"] t by auto
    then have a1: "a < 1" using a by (simp add: field_simps)
    have "\<not> nh \<le> nw"
    proof
      assume "nh \<le> nw"
      then have "1 \<le> r" using assms(2) by (simp add: r_def)
      then have "1 \<le> a" unfolding a_def by (rule double_ge_1)
      with a1 show False by simp
    qed
    moreover have "w \<le> 300" unfolding wh using a a1 by (intro double_le_300) simp_all
    moreover have w: "0 < w" unfolding wh using a by (intro double_pos) simp
    moreover have "\<bar>w / h - r\<bar> \<le> 3 * ?u * r"
    proof -
      have "\<bar>w - 300 * a\<bar> \<le> ?u * (300 * a)"
        using double_error [of "300 * a"] a by (simp add: wh)
      then have "\<bar>w / 300 - a\<bar> \<le> ?u * a"
        by (simp add: abs_le_iff field_simps)
      then have "\<bar>w / 300 - r\<bar> \<le> ?u * a + ?u * r"
        using ea by linarith
      also have "?u * a \<le> ?u * ((1 + ?u) * r)"
        using au unit_roundoff_pos by (intro mult_left_mono) simp_all
      also have "?u * ((1 + ?u) * r) + ?u * r = (2 * ?u + ?u * ?u) * r"
        by (simp add: algebra_simps)
      also have "\<dots> \<le> 3 * ?u * r"
        using r by (intro mult_right_mono) (simp_all add: unit_roundoff_def)
      finally show ?thesis by (simp add: wh)
    qed
    ultimately show ?thesis using wh by (simp add: max_def)
  next
    case False
    then have wh: "w = 300" "h = double (300 / a)" by (simp_all add: w_def h_def)
    have h: "0 < h" unfolding wh using t by (rule double_pos)
    have hle: "h \<le> 300" using False by (simp add: wh)
    define T where "T = 300 / a"
    have ta: "T * a = 300" using a by (simp add: T_def)
    have eh: "\<bar>h - T\<bar> \<le> ?u * T"
      using double_error [of "300 / a"] t by (simp add: wh T_def)
    then have "h \<le> (1 + ?u) * T" "(1 - ?u) * T \<le> h"
      by (simp_all add: abs_le_iff distrib_right left_diff_distrib)
    then have "h * a \<le> (1 + ?u) * T * a" "(1 - ?u) * T * a \<le> h * a"
      using a by (simp_all only: mult_le_cancel_right_pos)
    then have hu: "h * a \<le> (1 + ?u) * 300" and hl: "(1 - ?u) * 300 \<le> h * a"
      by (simp_all only: mult.assoc ta)
    have c1: "(1 + ?u) \<le> (1 + 3 * ?u) * (1 - ?u)"
      and c2: "(1 - 3 * ?u) * (1 + ?u) \<le> (1 - ?u)"
      by (simp_all add: unit_roundoff_def)
    have u1: "0 < 1 - ?u" and u2: "0 < 1 + ?u"
      by (simp_all add: unit_roundoff_def)
    have rh: "0 \<le> r * h" using r h by simp
    have ha1: "h * a \<le> h * ((1 + ?u) * r)" using au h by (intro mult_left_mono) simp_all
    have ha2: "h * ((1 - ?u) * r) \<le> h * a" using al h by (intro mult_left_mono) simp_all
    have up: "300 \<le> (1 + 3 * ?u) * (r * h)"
    proof -
      have "300 * (1 - ?u) \<le> (1 + ?u) * (r * h)"
        using hl ha1 by (simp add: algebra_simps)
      also have "\<dots> \<le> ((1 + 3 * ?u) * (1 - ?u)) * (r * h)"
        using c1 rh by (rule mult_right_mono)
      also have "\<dots> = ((1 + 3 * ?u) * (r * h)) * (1 - ?u)"
        by (simp only: mult_ac)
      finally show ?thesis using u1 by (rule mult_right_le_imp_le)
    qed
    have lo: "(1 - 3 * ?u) * (r * h) \<le> 300"
    proof -
      have "((1 - 3 * ?u) * (r * h)) * (1 + ?u) = ((1 - 3 * ?u) * (1 + ?u)) * (r * h)"
        by (simp only: mult_ac)
      also have "\<dots> \<le> (1 - ?u) * (r * h)"
        using c2 rh by (rule mult_right_mono)
      also have "\<dots> \<le> 300 * (1 + ?u)"
        using hu ha2 by (simp add: algebra_simps)
      finally show ?thesis using u2 by (rule mult_right_le_imp_le)
    qed
    have "300 / h \<le> (1 + 3 * ?u) * r" "(1 - 3 * ?u) * r \<le> 300 / h"
      using up lo h by (simp_all add: field_simps)
    then have "\<bar>w / h - r\<bar> \<le> 3 * ?u * r"
      by (simp add: wh abs_le_iff algebra_simps)
    then show ?thesis using wh h hle by (simp add: max_def)
  qed
qed


lemma centred_within_rounding:
  assumes "0 \<le> w"
  shows "\<bar>double (c - double (w / 2)) + w / 2 - c\<bar> \<le> 2 * unit_roundoff * (\<bar>c\<bar> + w)"
proof -
  let ?u = unit_roundoff
  define v where "v = double (w / 2)"
  have u: "0 < ?u" "?u \<le> 1" by (simp_all add: unit_roundoff_def)
  have ev: "\<bar>v - w / 2\<bar> \<le> ?u * (w / 2)"
    using double_error [of "w / 2"] assms by (simp add: v_def)
  have uw: "?u * (w / 2) \<le> w / 2"
    using u(2) assms mult_right_mono [of ?u 1 "w / 2"] by simp
  have v: "\<bar>v\<bar> \<le> w" using ev uw assms by linarith
  have "\<bar>double (c - v) - (c - v)\<bar> \<le> ?u * \<bar>c - v\<bar>"
    by (rule double_error)
  also have "\<dots> \<le> ?u * (\<bar>c\<bar> + w)"
    using v u(1) by (intro mult_left_mono) linarith+
  finally have "\<bar>double (c - v) + w / 2 - c\<bar> \<le> ?u * (\<bar>c\<bar> + w) + ?u * (w / 2)"
    using ev by linarith
  moreover have "?u * (w / 2) \<le> ?u * (\<bar>c\<bar> + w)"
    using u(1) assms by (intro mult_left_mono) linarith+
  ultimately show ?thesis unfolding v_def by linarith
qed

text \<open>
  C4, as the code has it. For every call of \<open>placeImageOnCanvas\<close> whose image (cached
  or just loaded) has positive natural dimensions, the call succeeds and appends one
  unselected image at the end of the order, with a freshly generated id (\<open>img_\<close>, the
  clock reading, \<open>_\<close> and the random draw scaled to 0..999). Its longer edge is always
  300, whatever the natural size; the width is 300 when the source is at least as wide
  as high. Within rounding tolerance its aspect ratio is the natural one (relative
  error at most three unit roundoffs) and its box is centred on the given point.
\<close>

theorem placeImageOnCanvas_box:
  assumes "(case imageCache s url of Some img \<Rightarrow> Some img | None \<Rightarrow> loaded) = Some (nw, nh)"
    and "0 < nw" and "0 < nh"
  shows "\<exists>s' p. placeImageOnCanvas s url (cx, cy) loaded now rnd = Some s' \<and>
           placedImages s' = placedImages s @ [p] \<and>
           \<bar>img_x p + img_width p / 2 - cx\<bar> \<le> 2 * unit_roundoff * (\<bar>cx\<bar> + img_width p) \<and>
           \<bar>img_y p + img_height p / 2 - cy\<bar> \<le> 2 * unit_roundoff * (\<bar>cy\<bar> + img_height p) \<and>
           \<bar>img_width p / img_height p - real nw / real nh\<bar>
             \<le> 3 * unit_roundoff * (real nw / real nh) \<and>
           max (img_width p) (img_height p) = 300 \<and>
           0 < img_width p \<and> 0 < img_height p \<and>
           (nh \<le> nw \<longrightarrow> img_width p = 300) \<and>
           img_url p = url \<and> \<not> img_selected p \<and>
           img_id p = ''img_'' @ decimal now @ ''_'' @ decimal (nat \<lfloor>double (rnd * 1000)\<rfloor>)"
proof -
  define s0 where "s0 = (case imageCache s url of Some img \<Rightarrow> s
                         | None \<Rightarrow> s\<lparr>imageCache := (imageCache s)(url \<mapsto> (nw, nh))\<rparr>)"
  have run: "placeImageOnCanvas s url (cx, cy) loaded now rnd
               = placeImage s0 url (cx, cy) (nw, nh) now rnd"
    using assms(1) by (auto simp: placeImageOnCanvas_def s0_def split: option.splits)
  have imgs0: "placedImages s0 = placedImages s"
    by (simp add: s0_def split: option.splits)
  define a where "a = double (real nw / real nh)"
  define w where "w = (if double (300 / a) > 300 then double (300 * a) else 300)"
  define h where "h = (if double (300 / a) > 300 then 300 else double (300 / a))"
  define p where "p = \<lparr>img_id = ''img_'' @ decimal now @ ''_'' @ decimal (nat \<lfloor>double (rnd * 1000)\<rfloor>),
               img_url = url, img_x = double (cx - double (w / 2)),
               img_y = double (cy - double (h / 2)),
               img_width = w, img_height = h, img_selected = False\<rparr>"
  let ?s' = "s0\<lparr>placedImages := placedImages s0 @ [p]\<rparr>"
  have "placeImage s0 url (cx, cy) (nw, nh) now rnd = Some (pushPlacedImage s0 url (cx, cy) w h now rnd)"
    unfolding w_def h_def a_def by (rule placeImage_positive [OF assms(2,3)])
  also have "pushPlacedImage s0 url (cx, cy) w h now rnd = ?s'"
    by (simp add: pushPlacedImage_def Let_def p_def)
  finally have r: "placeImageOnCanvas s url (cx, cy) loaded now rnd = Some ?s'"
    using run by simp
  have l: "placedImages ?s' = placedImages s @ [p]"
    by (simp add: imgs0)
  have b: "max w h = 300 \<and> 0 < w \<and> 0 < h \<and> (nh \<le> nw \<longrightarrow> w = 300) \<and>
         \<bar>w / h - real nw / real nh\<bar> \<le> 3 * unit_roundoff * (real nw / real nh)"
    unfolding w_def h_def a_def by (rule box_shape [OF assms(2,3)])
  then have w: "0 \<le> w" and h: "0 \<le> h" by simp_all
  have c: "\<bar>img_x p + img_width p / 2 - cx\<bar> \<le> 2 * unit_roundoff * (\<bar>cx\<bar> + img_width p)"
    "\<bar>img_y p + img_height p / 2 - cy\<bar> \<le> 2 * unit_roundoff * (\<bar>cy\<bar> + img_height p)"
    using centred_within_rounding [OF w, of cx] centred_within_rounding [OF h, of cy]
    by (simp_all add: p_def)
  have f: "img_width p = w" "img_height p = h" "img_url p = url" "\<not> img_selected p"
    "img_id p = ''img_'' @ decimal now @ ''_'' @ decimal (nat \<lfloor>double (rnd * 1000)\<rfloor>)"
    by (simp_all add: p_def)
  from r l c b f show ?thesis by metis
qed

text \<open>
  Values of \<open>double\<close> for a 100 by 700 source placed at (400, 300), as the code
  computes them: the ratio, the first height, the width, half the width and the left
  edge.
\<close>

lemma double_seventh: "double (1 / 7) = 2573485501354569 / 18014398509481984"
  by (subst double_eval [where e = "- 3"]) (simp_all add: round_even_def Let_def)

lemma double_2100: "double (300 / (2573485501354569 / 18014398509481984)) = 2100"
  by (subst double_eval [where e = 11]) (simp_all add: round_even_def Let_def)

lemma double_width: "double (300 * (2573485501354569 / 18014398509481984))
    = 6031606643799771 / 140737488355328"
  by (subst double_eval [where e = 5]) (simp_all add: round_even_def Let_def)

lemma double_half_width: "double (6031606643799771 / 281474976710656)
    = 6031606643799771 / 281474976710656"
  by (subst double_eval [where e = 4]) (simp_all add: round_even_def Let_def)

lemma double_left: "double (106558384040462629 / 281474976710656)
    = 3329949501264457 / 8796093022208"
  by (subst double_eval [where e = 8]) (simp_all add: round_even_def Let_def)

text \<open>
  A 100 by 50 source, smaller than the maximum, is placed as a 300 by 150 box, not at
  its natural size. And the box of a 100 by 700 source placed at (400, 300) has its
  centre at \<open>400 - 5 / 2 ^ 48\<close>, not at 400: \<open>x + width / 2\<close> is computed from rounded
  values.
\<close>

theorem placeImageOnCanvas_counterexample:
  "img_width (last (placedImages (the (placeImageOnCanvas initialApp ''x.png'' (500, 500)
      (Some (100, 50)) 5 (1 / 2))))) = 300 \<and>
   img_height (last (placedImages (the (placeImageOnCanvas initialApp ''x.png'' (500, 500)
      (Some (100, 50)) 5 (1 / 2))))) = 150 \<and>
   img_x (last (placedImages (the (placeImageOnCanvas initialApp ''y.png'' (400, 300)
      (Some (100, 700)) 5 (1 / 2)))))
   + img_width (last (placedImages (the (placeImageOnCanvas initialApp ''y.png'' (400, 300)
      (Some (100, 700)) 5 (1 / 2))))) / 2
     = 400 - 5 / 281474976710656"
proof -
  have a: "placedImages (the (placeImageOnCanvas initialApp ''x.png'' (500, 500)
      (Some (100, 50)) 5 (1 / 2)))
     = [\<lparr>img_id = ''img_5_500'', img_url = ''x.png'', img_x = 350, img_y = 425,
         img_width = 300, img_height = 150, img_selected = False\<rparr>]"
    by (simp add: placeImageOnCanvas_def placeImage_def pushPlacedImage_def initialApp_def
        decimal.simps digit_def)
  have r: "real 100 / real 700 = 1 / 7" by simp
  have p: "placeImage s ''y.png'' (400, 300) (100, 700) 5 (1 / 2)
     = Some (pushPlacedImage s ''y.png'' (400, 300)
         (6031606643799771 / 140737488355328) 300 5 (1 / 2))" for s
    by (simp only: placeImage_positive [of 100 700, simplified] r double_seventh
        double_2100 double_width) simp
  have b: "img_width (last (placedImages (the (placeImageOnCanvas initialApp ''y.png'' (400, 300)
      (Some (100, 700)) 5 (1 / 2))))) = 6031606643799771 / 140737488355328"
    by (simp add: placeImageOnCanvas_def initialApp_def p pushPlacedImage_def)
  have c: "img_x (last (placedImages (the (placeImageOnCanvas initialApp ''y.png'' (400, 300)
      (Some (100, 700)) 5 (1 / 2))))) = 3329949501264457 / 8796093022208"
    by (simp add: placeImageOnCanvas_def initialApp_def p pushPlacedImage_def
        double_half_width double_left)
  have d: "(3329949501264457 / 8796093022208 + 6031606643799771 / 140737488355328 / 2 :: real)
     = 400 - 5 / 281474976710656"
    by simp
  show ?thesis unfolding b c using a d by simp
qed

theorem placeImageOnCanvas_box_witness:
  "(case imageCache initialApp ''x.png'' of Some img \<Rightarrow> Some img | None \<Rightarrow> Some (1600, 800))
     = Some (1600, 800) \<and> (0::nat) < 1600 \<and> (0::nat) < 800 \<and>
   img_width (last (placedImages
     (the (placeImageOnCanvas initialApp ''x.png'' (500, 500) (Some (1600, 800)) 5 (1 / 2))))) = 300 \<and>
   \<bar>img_x (last (placedImages
     (the (placeImageOnCanvas initialApp ''x.png'' (500, 500) (Some (1600, 800)) 5 (1 / 2)))))
     + 300 / 2 - 500\<bar> \<le> 2 * unit_roundoff * (500 + 300) \<and>
   \<bar>300 / img_height (last (placedImages
     (the (placeImageOnCanvas initialApp ''x.png'' (500, 500) (Some (1600, 800)) 5 (1 / 2)))))
     - 2\<bar> \<le> 3 * unit_roundoff * 2"
proof -
  let ?r = "placeImageOnCanvas initialApp ''x.png'' (500, 500) (Some (1600, 800)) 5 (1 / 2)"
  have a: "(case imageCache initialApp ''x.png'' of Some img \<Rightarrow> Some img | None \<Rightarrow> Some (1600, 800))
     = Some (1600::nat, 800::nat)"
    by (simp add: initialApp_def)
  have b: "(0::nat) < 1600" and c: "(0::nat) < 800" by simp_all
  from placeImageOnCanvas_box [OF a b c, of 500 500 5 "1 / 2"] obtain s' p where
    p: "?r = Some s'" "placedImages s' = placedImages initialApp @ [p]"
      "\<bar>img_x p + img_width p / 2 - 500\<bar> \<le> 2 * unit_roundoff * (\<bar>500\<bar> + img_width p)"
      "\<bar>img_width p / img_height p - real (1600::nat) / real (800::nat)\<bar>
             \<le> 3 * unit_roundoff * (real (1600::nat) / real (800::nat))"
      "(800::nat) \<le> 1600 \<longrightarrow> img_width p = 300"
    by blast
  have l: "last (placedImages (the ?r)) = p" using p(1,2) by simp
  have w: "img_width p = 300" using p(5) by simp
  have x: "\<bar>img_x p + 300 / 2 - 500\<bar> \<le> 2 * unit_roundoff * (500 + 300)"
    using p(3) by (simp add: w)
  have h: "\<bar>300 / img_height p - 2\<bar> \<le> 3 * unit_roundoff * 2"
    using p(4) by (simp add: w)
  from a b c w x h show ?thesis unfolding l by blast
qed

section \<open>The selection invariant is kept by every operation\<close>

text \<open>
  The invariant holds initially and is kept by placing, selecting, deselecting and
  deleting, whatever ids the placements generate.
\<close>

lemma selection_inv_initialApp: "selection_inv initialApp"
  by (simp add: selection_inv_def initialApp_def)

lemma selection_inv_placeImage:
  assumes "selection_inv s" and "placeImage s url pos img now rnd = Some s'"
  shows "selection_inv s'"
proof -
  from placeImage_appends [OF assms(2)] obtain p where
    p: "placedImages s' = placedImages s @ [p]" "\<not> img_selected p" "img_id p \<noteq> []"
       "selectedImageId s' = selectedImageId s"
    by blast
  show ?thesis
    using assms(1) p unfolding selection_inv_def
    by (auto split: option.splits)
qed

lemma selection_inv_placeImageOnCanvas:
  assumes "selection_inv s" and "placeImageOnCanvas s url pos loaded now rnd = Some s'"
  shows "selection_inv s'"
proof (cases "imageCache s url")
  case (Some img)
  with assms(2) have "placeImage s url pos img now rnd = Some s'"
    by (simp add: placeImageOnCanvas_def)
  from selection_inv_placeImage [OF assms(1) this] show ?thesis .
next
  case None
  show ?thesis
  proof (cases loaded)
    case n: None
    with None assms show ?thesis by (simp add: placeImageOnCanvas_def)
  next
    case (Some img)
    let ?s = "s\<lparr>imageCache := (imageCache s)(url \<mapsto> img)\<rparr>"
    have "selection_inv ?s"
      using assms(1) by (auto simp: selection_inv_def split: option.splits)
    moreover have "placeImage ?s url pos img now rnd = Some s'"
      using None Some assms(2) by (simp add: placeImageOnCanvas_def)
    ultimately show ?thesis by (rule selection_inv_placeImage)
  qed
qed



lemma selection_inv_deselectAllImages:
  "selection_inv s \<Longrightarrow> selection_inv (deselectAllImages s)"
  unfolding selection_inv_def
  by (auto simp: deselectAllImages_def deselect_def)

lemma selection_inv_deleteSelectedImage:
  assumes "selection_inv s"
  shows "selection_inv (deleteSelectedImage s)"
proof (cases "selectedImageId s")
  case None
  with assms show ?thesis by (simp add: deleteSelectedImage_def)
next
  case (Some sid)
  show ?thesis
  proof (cases "sid = []")
    case True
    with Some assms show ?thesis by (simp add: deleteSelectedImage_def)
  next
    case False
    have "\<forall>img \<in> set (filter (\<lambda>img. img_id img \<noteq> sid) (placedImages s)).
        img_id img \<noteq> [] \<and> \<not> img_selected img"
      using assms Some unfolding selection_inv_def by auto
    then show ?thesis
      using Some False unfolding selection_inv_def by (simp add: deleteSelectedImage_def)
  qed
qed

section \<open>States with a repeated id\<close>







section \<open>Deletion\<close>




section \<open>The proxy route\<close>

lemma prompt_of_snoc:
  "prompt_of (flds @ [(name, val)]) = (if name = ''prompt'' then val else prompt_of flds)"
  by (simp add: prompt_of_def)

lemma prompt_of_last_field:
  "prompt_of flds = (case map_of (rev flds) ''prompt'' of None \<Rightarrow> [] | Some v \<Rightarrow> v)"
proof (induction flds rule: rev_induct)
  case Nil
  show ?case by (simp add: prompt_of_def)
next
  case (snoc f flds)
  obtain name val where f: "f = (name, val)" by (cases f)
  show ?case using snoc by (simp add: f prompt_of_snoc)
qed

lemma str_includes_iff: "str_includes s p \<longleftrightarrow> (\<exists>a b. s = a @ p @ b)"
proof (induction s)
  case Nil
  show ?case by auto
next
  case (Cons c cs)
  have pre: "take (length p) (c # cs) = p \<longleftrightarrow> (\<exists>b. c # cs = p @ b)"
    by (metis append_eq_conv_conj append_take_drop_id)
  show ?case
  proof
    assume "str_includes (c # cs) p"
    then consider "take (length p) (c # cs) = p" | "str_includes cs p" by auto
    then show "\<exists>a b. c # cs = a @ p @ b"
    proof cases
      case 1
      with pre obtain b where "c # cs = p @ b" by blast
      then have "c # cs = [] @ p @ b" by simp
      then show ?thesis by blast
    next
      case 2
      with Cons.IH obtain a b where "cs = a @ p @ b" by blast
      then have "c # cs = (c # a) @ p @ b" by simp
      then show ?thesis by blast
    qed
  next
    assume "\<exists>a b. c # cs = a @ p @ b"
    then obtain a b where ab: "c # cs = a @ p @ b" by blast
    show "str_includes (c # cs) p"
    proof (cases a)
      case Nil
      with ab have "c # cs = p @ b" by simp
      with pre have "take (length p) (c # cs) = p" by blast
      then show ?thesis by simp
    next
      case (Cons a0 as)
      with ab have "cs = as @ p @ b" by simp
      with Cons.IH show ?thesis by auto
    qed
  qed
qed

text \<open>
  C9, as the code has it. A request without an API key, or with an empty one, gets
  401, whatever its body. With a key and a form that is read to its end, a (last) field
  \<open>prompt\<close> that is absent or empty gets 400. Both validation responses carry the body
  \<open>{error}\<close> alone, without \<open>details\<close>. With key and prompt: an upstream response that
  is not OK has its status mirrored, with the body \<open>{error, details, status}\<close> unless
  the status is 304, which is sent without a body; an OK response whose content type
  does not contain \<open>image\<close> gives 502 with \<open>{error, details}\<close>; an OK image response
  gives 200 with \<open>{success: true, image}\<close>, the image in base64.
\<close>

theorem proxy_generate_responses:
  "((api_key req = None \<or> api_key req = Some []) \<longrightarrow>
      proxy_generate encode req upstream =
        Some \<lparr>res_status = 401,
              res_body = Some [(''error'', JString ''API key is required'')]\<rparr>) \<and>
   (api_key req = Some k \<and> k \<noteq> [] \<and> form req = Multipart flds \<longrightarrow>
      ((map_of (rev flds) ''prompt'' = None \<or> map_of (rev flds) ''prompt'' = Some []) \<longrightarrow>
          proxy_generate encode req upstream =
            Some \<lparr>res_status = 400,
                  res_body = Some [(''error'', JString ''Prompt is required'')]\<rparr>) \<and>
      (map_of (rev flds) ''prompt'' = Some v \<and> v \<noteq> [] \<and> upstream = Resolved r \<longrightarrow>
          (\<not> ok r \<longrightarrow>
             proxy_generate encode req upstream =
               Some \<lparr>res_status = up_status r,
                     res_body =
                       (if up_status r = 304 then None
                        else Some [(''error'', JString ''Error from Clipdrop API''),
                                   (''details'',
                                    JString (case up_body r of
                                               Inl _ \<Rightarrow> ''Failed to generate image''
                                             | Inr errorText \<Rightarrow> errorText)),
                                   (''status'', JNumber (up_status r))])\<rparr>) \<and>
          (ok r \<and> up_body r = Inr content \<and>
           (up_content_type r = None \<or>
            (up_content_type r = Some ct \<and> \<not> str_includes ct ''image'')) \<longrightarrow>
             proxy_generate encode req upstream =
               Some \<lparr>res_status = 502,
                     res_body =
                       Some [(''error'', JString ''Unexpected response type from Clipdrop API''),
                             (''details'', JString content)]\<rparr>) \<and>
          (ok r \<and> up_body r = Inr content \<and>
           up_content_type r = Some ct \<and> str_includes ct ''image'' \<longrightarrow>
             proxy_generate encode req upstream =
               Some \<lparr>res_status = 200,
                     res_body = Some [(''success'', JBool True),
                                      (''image'', JString (encode content))]\<rparr>)))"
proof -
  have unauth: "proxy_generate encode req upstream =
        Some \<lparr>res_status = 401,
              res_body = Some [(''error'', JString ''API key is required'')]\<rparr>"
    if "api_key req = None \<or> api_key req = Some []"
    using that by (auto simp: proxy_generate_def send_json_def)
  have noprompt: "proxy_generate encode req upstream =
            Some \<lparr>res_status = 400,
                  res_body = Some [(''error'', JString ''Prompt is required'')]\<rparr>"
    if "api_key req = Some k" "k \<noteq> []" "form req = Multipart flds"
      "map_of (rev flds) ''prompt'' = None \<or> map_of (rev flds) ''prompt'' = Some []"
  proof -
    have "prompt_of flds = []" using that(4) by (auto simp: prompt_of_last_field)
    with that(1,2,3) show ?thesis by (simp add: proxy_generate_def send_json_def)
  qed
  have fwd: "proxy_generate encode req upstream =
      (if \<not> ok r
       then Some (send_json (up_status r)
                    [(''error'', JString ''Error from Clipdrop API''),
                     (''details'', JString (case up_body r of
                                              Inl _ \<Rightarrow> ''Failed to generate image''
                                            | Inr errorText \<Rightarrow> errorText)),
                     (''status'', JNumber (up_status r))])
       else if (case up_content_type r of None \<Rightarrow> False
                | Some contentType \<Rightarrow> str_includes contentType ''image'')
       then (case up_body r of
               Inl msg \<Rightarrow> Some (send_json 500
                                  [(''error'', JString ''Failed to process request''),
                                   (''details'', JString msg)])
             | Inr imageBuffer \<Rightarrow>
                 Some (send_json 200
                         [(''success'', JBool True),
                          (''image'', JString (encode imageBuffer))]))
       else (case up_body r of
               Inl msg \<Rightarrow> Some (send_json 500
                                  [(''error'', JString ''Failed to process request''),
                                   (''details'', JString msg)])
             | Inr bodyText \<Rightarrow>
                 Some (send_json 502
                         [(''error'', JString ''Unexpected response type from Clipdrop API''),
                          (''details'', JString bodyText)])))"
    if "api_key req = Some k" "k \<noteq> []" "form req = Multipart flds"
      "map_of (rev flds) ''prompt'' = Some v" "v \<noteq> []" "upstream = Resolved r"
  proof -
    have "prompt_of flds \<noteq> []" using that(4,5) by (simp add: prompt_of_last_field)
    with that(1,2,3,6) show ?thesis by (simp add: proxy_generate_def Let_def)
  qed
  show ?thesis
  proof (intro conjI impI; (elim conjE)?)
    assume "api_key req = None \<or> api_key req = Some []"
    then show "proxy_generate encode req upstream =
        Some \<lparr>res_status = 401,
              res_body = Some [(''error'', JString ''API key is required'')]\<rparr>"
      by (rule unauth)
  next
    assume "api_key req = Some k" "k \<noteq> []" "form req = Multipart flds"
      "map_of (rev flds) ''prompt'' = None \<or> map_of (rev flds) ''prompt'' = Some []"
    then show "proxy_generate encode req upstream =
            Some \<lparr>res_status = 400,
                  res_body = Some [(''error'', JString ''Prompt is required'')]\<rparr>"
      by (rule noprompt)
  next
    assume a: "api_key req = Some k" "k \<noteq> []" "form req = Multipart flds"
      "map_of (rev flds) ''prompt'' = Some v" "v \<noteq> []" "upstream = Resolved r"
      and b: "\<not> ok r"
    have "up_status r \<noteq> 204" using b by (auto simp: ok_def)
    then show "proxy_generate encode req upstream =
               Some \<lparr>res_status = up_status r,
                     res_body =
                       (if up_status r = 304 then None
                        else Some [(''error'', JString ''Error from Clipdrop API''),
                                   (''details'',
                                    JString (case up_body r of
                                               Inl _ \<Rightarrow> ''Failed to generate image''
                                             | Inr errorText \<Rightarrow> errorText)),
                                   (''status'', JNumber (up_status r))])\<rparr>"
      using b by (simp add: fwd [OF a] send_json_def)
  next
    assume a: "api_key req = Some k" "k \<noteq> []" "form req = Multipart flds"
      "map_of (rev flds) ''prompt'' = Some v" "v \<noteq> []" "upstream = Resolved r"
      and b: "ok r" "up_body r = Inr content"
        "up_content_type r = None \<or> (up_content_type r = Some ct \<and> \<not> str_includes ct ''image'')"
    show "proxy_generate encode req upstream =
               Some \<lparr>res_status = 502,
                     res_body =
                       Some [(''error'', JString ''Unexpected response type from Clipdrop API''),
                             (''details'', JString content)]\<rparr>"
      using b by (auto simp: fwd [OF a] send_json_def)
  next
    assume a: "api_key req = Some k" "k \<noteq> []" "form req = Multipart flds"
      "map_of (rev flds) ''prompt'' = Some v" "v \<noteq> []" "upstream = Resolved r"
      and b: "ok r" "up_body r = Inr content"
        "up_content_type r = Some ct" "str_includes ct ''image''"
    show "proxy_generate encode req upstream =
               Some \<lparr>res_status = 200,
                     res_body = Some [(''success'', JBool True),
                                      (''image'', JString (encode content))]\<rparr>"
      using b by (simp add: fwd [OF a] send_json_def)
  qed
qed

text \<open>
  The two validation responses have the single key \<open>error\<close>; a header that is present
  but empty gets 401, not 400, although the prompt is missing; a request with a key
  whose body breaks off gets no response at all; and a mirrored status 304 has no body.
\<close>

theorem proxy_generate_counterexample:
  "proxy_generate id \<lparr>api_key = None, form = Multipart [(''prompt'', ''a cat'')]\<rparr> (Rejected [])
     = Some \<lparr>res_status = 401,
             res_body = Some [(''error'', JString ''API key is required'')]\<rparr> \<and>
   proxy_generate id \<lparr>api_key = Some ''key'', form = Multipart []\<rparr> (Rejected [])
     = Some \<lparr>res_status = 400,
             res_body = Some [(''error'', JString ''Prompt is required'')]\<rparr> \<and>
   map_option res_status
     (proxy_generate id \<lparr>api_key = Some [], form = Multipart []\<rparr> (Rejected [])) = Some 401 \<and>
   proxy_generate id \<lparr>api_key = Some ''key'', form = Truncated\<rparr> (Rejected []) = None \<and>
   proxy_generate id \<lparr>api_key = Some ''key'', form = Multipart [(''prompt'', ''a cat'')]\<rparr>
     (Resolved \<lparr>up_status = 304, up_content_type = None, up_body = Inr []\<rparr>)
     = Some \<lparr>res_status = 304, res_body = None\<rparr>"
  by (simp add: proxy_generate_def prompt_of_def send_json_def ok_def)

theorem proxy_generate_responses_witness:
  "proxy_generate id \<lparr>api_key = None, form = Truncated\<rparr> (Rejected [])
     = Some \<lparr>res_status = 401,
             res_body = Some [(''error'', JString ''API key is required'')]\<rparr> \<and>
   proxy_generate id \<lparr>api_key = Some ''key'', form = Multipart [(''prompt'', [])]\<rparr> (Rejected [])
     = Some \<lparr>res_status = 400,
             res_body = Some [(''error'', JString ''Prompt is required'')]\<rparr> \<and>
   proxy_generate id \<lparr>api_key = Some ''key'', form = Multipart [(''prompt'', ''a cat'')]\<rparr>
     (Resolved \<lparr>up_status = 429, up_content_type = Some ''application/json'',
                up_body = Inr ''quota''\<rparr>)
     = Some \<lparr>res_status = 429,
             res_body = Some [(''error'', JString ''Error from Clipdrop API''),
                              (''details'', JString ''quota''),
                              (''status'', JNumber 429)]\<rparr> \<and>
   proxy_generate id \<lparr>api_key = Some ''key'', form = Multipart [(''prompt'', ''a cat'')]\<rparr>
     (Resolved \<lparr>up_status = 200, up_content_type = Some ''text/plain'', up_body = Inr ''hello''\<rparr>)
     = Some \<lparr>res_status = 502,
             res_body = Some [(''error'', JString ''Unexpected response type from Clipdrop API''),
                              (''details'', JString ''hello'')]\<rparr> \<and>
   proxy_generate id \<lparr>api_key = Some ''key'', form = Multipart [(''prompt'', ''a cat'')]\<rparr>
     (Resolved \<lparr>up_status = 200, up_content_type = Some ''image/png'', up_body = Inr ''PNG''\<rparr>)
     = Some \<lparr>res_status = 200,
             res_body = Some [(''success'', JBool True), (''image'', JString ''PNG'')]\<rparr>"
proof -
  let ?req = "\<lparr>api_key = Some ''key'', form = Multipart [(''prompt'', ''a cat'')]\<rparr>"
  let ?r1 = "\<lparr>up_status = 429, up_content_type = Some ''application/json'', up_body = Inr ''quota''\<rparr>"
  let ?r2 = "\<lparr>up_status = 200, up_content_type = Some ''text/plain'', up_body = Inr ''hello''\<rparr>"
  let ?r3 = "\<lparr>up_status = 200, up_content_type = Some ''image/png'', up_body = Inr ''PNG''\<rparr>"
  have a: "proxy_generate id \<lparr>api_key = None, form = Truncated\<rparr> (Rejected [])
     = Some \<lparr>res_status = 401,
             res_body = Some [(''error'', JString ''API key is required'')]\<rparr>"
    using proxy_generate_responses
      [where req = "\<lparr>api_key = None, form = Truncated\<rparr>"
        and encode = id and upstream = "Rejected []"]
    by simp
  have b: "proxy_generate id \<lparr>api_key = Some ''key'', form = Multipart [(''prompt'', [])]\<rparr> (Rejected [])
     = Some \<lparr>res_status = 400,
             res_body = Some [(''error'', JString ''Prompt is required'')]\<rparr>"
    using proxy_generate_responses
      [where req = "\<lparr>api_key = Some ''key'', form = Multipart [(''prompt'', [])]\<rparr>"
        and encode = id and upstream = "Rejected []" and k = "''key''"
        and flds = "[(''prompt'', [])]"]
    by simp
  have c: "proxy_generate id ?req (Resolved ?r1)
     = Some \<lparr>res_status = 429,
             res_body = Some [(''error'', JString ''Error from Clipdrop API''),
                              (''details'', JString ''quota''),
                              (''status'', JNumber 429)]\<rparr>"
    using proxy_generate_responses
      [where req = ?req and encode = id and upstream = "Resolved ?r1" and k = "''key''"
        and flds = "[(''prompt'', ''a cat'')]" and v = "''a cat''" and r = ?r1]
    by (simp add: ok_def)
  have d: "proxy_generate id ?req (Resolved ?r2)
     = Some \<lparr>res_status = 502,
             res_body = Some [(''error'', JString ''Unexpected response type from Clipdrop API''),
                              (''details'', JString ''hello'')]\<rparr>"
    using proxy_generate_responses
      [where req = ?req and encode = id and upstream = "Resolved ?r2" and k = "''key''"
        and flds = "[(''prompt'', ''a cat'')]" and v = "''a cat''" and r = ?r2
        and content = "''hello''" and ct = "''text/plain''"]
    by (simp add: ok_def)
  have e: "proxy_generate id ?req (Resolved ?r3)
     = Some \<lparr>res_status = 200,
             res_body = Some [(''success'', JBool True), (''image'', JString ''PNG'')]\<rparr>"
    using proxy_generate_responses
      [where req = ?req and encode = id and upstream = "Resolved ?r3" and k = "''key''"
        and flds = "[(''prompt'', ''a cat'')]" and v = "''a cat''" and r = ?r3
        and content = "''PNG''" and ct = "''image/png''"]
    by (simp add: ok_def)
  from a b c d e show ?thesis by blast
qed

end
